theory Spec2Isabelle
  imports Complex_Main "HOL-Library.AList" "HOL-Library.Char_ord" "HOL-Library.List_Lexorder"
    "HOL-Library.Product_Lexorder" "HOL-Library.Multiset" "HOL-Library.Sublist"
begin

section \<open>Shared data: consult.py, ModelResponse and the MODELS entries\<close>

text \<open>
  \<^verbatim>\<open>ModelResponse\<close> (consult.py, line 234). Weights and confidences are Python floats;
  they are read here as the real numbers they denote. Texts are lists of characters,
  compared by code point as Python compares \<^verbatim>\<open>str\<close>.
\<close>

record model_response =
  model :: string
  domain :: string
  response :: "string option"
  weight :: real
  duration_ms :: nat
  status :: string
  error :: "string option"

text \<open>One value of the \<^verbatim>\<open>MODELS\<close> dictionary; \<^verbatim>\<open>timeout\<close> is in seconds.\<close>

record config =
  cfg_domain :: string
  cfg_weight :: real
  cfg_timeout :: nat
  cfg_description :: string
  cfg_color :: string

section \<open>Python primitives\<close>

text \<open>The decimal rendering of a non-negative integer inside an f-string.\<close>

definition digit_char :: "nat \<Rightarrow> char" where
  "digit_char d = ''0123456789'' ! d"

function show_nat :: "nat \<Rightarrow> string" where
  "show_nat n = (if n < 10 then [digit_char n] else show_nat (n div 10) @ [digit_char (n mod 10)])"
  by pat_completeness auto
termination
  by (relation "measure id") auto

declare show_nat.simps [simp del]

section \<open>The endpoint seen by one call\<close>

text \<open>
  What \<^verbatim>\<open>await resp.text()\<close> can do on a response whose status is not 200: raise an
  \<^verbatim>\<open>aiohttp.ClientError\<close> while the body is read, raise \<^verbatim>\<open>UnicodeDecodeError\<close> (a
  \<^verbatim>\<open>ValueError\<close>) when the body does not decode, or return the text.
\<close>

datatype text_result =
    TextClientError string
  | TextUndecodable
  | TextBody string

text \<open>
  What \<^verbatim>\<open>await resp.json()\<close> can do on a 200 response: raise an \<^verbatim>\<open>aiohttp.ClientError\<close>
  (a payload error, or \<^verbatim>\<open>ContentTypeError\<close> when the reply is not served as JSON), raise
  \<^verbatim>\<open>UnicodeDecodeError\<close>, raise \<^verbatim>\<open>json.JSONDecodeError\<close> (both are \<^verbatim>\<open>ValueError\<close>s), return
  \<^verbatim>\<open>None\<close> for an empty body, return a JSON value that is not an object, or return an
  object, given by its string-valued entries.
\<close>

datatype json_result =
    JsonContentTypeError string
  | JsonUndecodable
  | JsonDecodeFailure
  | JsonNone
  | JsonNotObject
  | JsonObject "(string \<times> string) list"

text \<open>
  What \<^verbatim>\<open>session.post\<close> yields when no timeout strikes: a \<^verbatim>\<open>ClientError\<close> with its
  message, or a response with its status, the outcome of reading its text and the outcome
  of decoding it as JSON.
\<close>

datatype http_reply =
    ClientFailure string
  | HttpResponse nat text_result json_result

text \<open>
  One endpoint during one call: the time it needs to answer, in milliseconds, its answer,
  and \<open>measured_ms\<close>, the value that \<^verbatim>\<open>int((time.time() - start_time) * 1000)\<close> has when
  the result is built (the wall clock is read, whatever the budget was).
  \<^verbatim>\<open>aiohttp.ClientTimeout(total=config["timeout"])\<close> raises \<^verbatim>\<open>asyncio.TimeoutError\<close> once
  the elapsed time exceeds a positive budget; a budget of 0 disables the timeout.
\<close>

record endpoint =
  latency_ms :: nat
  reply :: http_reply
  measured_ms :: nat

datatype post_outcome = TimeoutError | Replied http_reply

definition session_post :: "endpoint \<Rightarrow> nat \<Rightarrow> post_outcome" where
  "session_post ep timeout_s =
     (if 0 < timeout_s \<and> latency_ms ep > timeout_s * 1000 then TimeoutError
      else Replied (reply ep))"

text \<open>The exceptions that no handler of \<^verbatim>\<open>query_model\<close> catches.\<close>

datatype exn = JSONDecodeError | AttributeError | UnicodeDecodeError

text \<open>The session, as the log of the requests posted through it: model name and prompt.\<close>

type_synonym session = "(string \<times> string) list"

section \<open>query\_model (consult.py, line 787)\<close>

definition dict_get :: "(string \<times> string) list \<Rightarrow> string \<Rightarrow> string \<Rightarrow> string" where
  "dict_get d k dflt = (case map_of d k of None \<Rightarrow> dflt | Some v \<Rightarrow> v)"

definition mk_response ::
  "string \<Rightarrow> config \<Rightarrow> string option \<Rightarrow> nat \<Rightarrow> string \<Rightarrow> string option \<Rightarrow> model_response" where
  "mk_response name cfg resp dur st err =
     \<lparr>model = name, domain = cfg_domain cfg, response = resp, weight = cfg_weight cfg,
      duration_ms = dur, status = st, error = err\<rparr>"

text \<open>
  The body of \<^verbatim>\<open>query_model\<close> with no callbacks (\<^verbatim>\<open>ui\<close> is \<^verbatim>\<open>None\<close>). The result is
  \<open>Inr\<close> the \<^verbatim>\<open>ModelResponse\<close> returned, or \<open>Inl\<close> the exception that leaves the function;
  the second component is the session after the call.
\<close>

definition query_model ::
  "endpoint \<Rightarrow> session \<Rightarrow> string \<Rightarrow> string \<Rightarrow> config \<Rightarrow> (exn + model_response) \<times> session" where
  "query_model ep sess name prompt cfg =
     (let sess' = sess @ [(name, prompt)];
          dur = measured_ms ep
      in case session_post ep (cfg_timeout cfg) of
           TimeoutError \<Rightarrow>
             (Inr (mk_response name cfg None dur ''timeout''
                    (Some (''Timeout after '' @ show_nat (cfg_timeout cfg) @ ''s''))), sess')
         | Replied (ClientFailure msg) \<Rightarrow>
             (Inr (mk_response name cfg None dur ''error'' (Some msg)), sess')
         | Replied (HttpResponse code txt js) \<Rightarrow>
             (if code \<noteq> 200 then
                (case txt of
                   TextClientError msg \<Rightarrow>
                     (Inr (mk_response name cfg None dur ''error'' (Some msg)), sess')
                 | TextUndecodable \<Rightarrow> (Inl UnicodeDecodeError, sess')
                 | TextBody error_text \<Rightarrow>
                     (Inr (mk_response name cfg None dur ''error''
                            (Some (''HTTP '' @ show_nat code @ '': '' @ take 100 error_text))),
                      sess'))
              else case js of
                  JsonContentTypeError msg \<Rightarrow>
                    (Inr (mk_response name cfg None dur ''error'' (Some msg)), sess')
                | JsonUndecodable \<Rightarrow> (Inl UnicodeDecodeError, sess')
                | JsonDecodeFailure \<Rightarrow> (Inl JSONDecodeError, sess')
                | JsonNone \<Rightarrow> (Inl AttributeError, sess')
                | JsonNotObject \<Rightarrow> (Inl AttributeError, sess')
                | JsonObject d \<Rightarrow>
                    (Inr (mk_response name cfg (Some (dict_get d ''response'' [])) dur
                           ''success'' None), sess')))"

section \<open>consult (consult.py, line 1007)\<close>

text \<open>
  \<^verbatim>\<open>heapq\<close> is the standard library's priority queue, taken here by its contract: the
  heap holds a bag of items, \<^verbatim>\<open>heappush\<close> adds one and \<^verbatim>\<open>heappop\<close> removes and returns the
  least. The items are the tuples \<^verbatim>\<open>(-result.weight, result.model, result)\<close>; the keys of a
  dictionary are distinct, so their order is decided by the first two components.
\<close>

type_synonym heap_item = "real \<times> string \<times> model_response"

definition item_key :: "heap_item \<Rightarrow> real \<times> string" where
  "item_key it = (fst it, fst (snd it))"

definition heap_entry :: "model_response \<Rightarrow> heap_item" where
  "heap_entry r = (- weight r, model r, r)"

definition heappush :: "heap_item list \<Rightarrow> heap_item \<Rightarrow> heap_item list" where
  "heappush h it = h @ [it]"

fun least_item :: "heap_item \<Rightarrow> heap_item list \<Rightarrow> heap_item" where
  "least_item m [] = m"
| "least_item m (x # xs) = least_item (if item_key x < item_key m then x else m) xs"

definition heappop :: "heap_item list \<Rightarrow> heap_item \<times> heap_item list" where
  "heappop h = (let m = least_item (hd h) (tl h) in (m, remove1 m h))"

lemma least_item_mem: "least_item m xs \<in> set (m # xs)"
  by (induction xs arbitrary: m) (auto split: if_splits)

lemma heappop_shorter: "h \<noteq> [] \<Longrightarrow> length (snd (heappop h)) < length h"
proof -
  assume ne: "h \<noteq> []"
  then have "least_item (hd h) (tl h) \<in> set h"
    using least_item_mem [of "hd h" "tl h"] by simp
  then show ?thesis
    using ne by (simp add: heappop_def Let_def length_remove1)
qed

text \<open>The loop \<^verbatim>\<open>while results_heap: ... heappop ... append\<close>.\<close>

function drain :: "heap_item list \<Rightarrow> model_response list \<Rightarrow> model_response list" where
  "drain h acc =
     (if h = [] then acc
      else drain (snd (heappop h)) (acc @ [snd (snd (fst (heappop h)))]))"
  by pat_completeness auto
termination
  by (relation "measure (\<lambda>(h, acc). length h)") (auto simp: heappop_shorter)

declare drain.simps [simp del]

text \<open>
  The loop over \<^verbatim>\<open>asyncio.as_completed(tasks)\<close>: the results arrive in completion order;
  an exception of a task leaves \<^verbatim>\<open>consult\<close> at its \<^verbatim>\<open>await\<close>.
\<close>

fun collect :: "heap_item list \<Rightarrow> (exn + model_response) list \<Rightarrow> exn + heap_item list" where
  "collect h [] = Inr h"
| "collect h (Inl e # rs) = Inl e"
| "collect h (Inr r # rs) = collect (heappush h (heap_entry r)) rs"

text \<open>
  \<^verbatim>\<open>consult\<close>: \<open>models\<close> is the dictionary as its list of items, \<open>net\<close> gives the endpoint
  behind each model name, and \<open>order\<close> lists the positions of the tasks in the order in
  which they complete.
\<close>

definition bounded_query ::
  "(string \<Rightarrow> endpoint) \<Rightarrow> string \<Rightarrow> string \<times> config \<Rightarrow> exn + model_response" where
  "bounded_query net question nc =
     fst (query_model (net (fst nc)) [] (fst nc) question (snd nc))"

definition consult ::
  "(string \<Rightarrow> endpoint) \<Rightarrow> string \<Rightarrow> (string \<times> config) list \<Rightarrow> nat list
     \<Rightarrow> exn + model_response list" where
  "consult net question models order =
     (case collect [] (map (\<lambda>i. bounded_query net question (models ! i)) order) of
        Inl e \<Rightarrow> Inl e
      | Inr h \<Rightarrow> Inr (drain h []))"

text \<open>
  Concrete inputs: the entry of \<^verbatim>\<open>MODELS\<close> for \<^verbatim>\<open>unified-systems-architect\<close> (budget
  180 seconds), an endpoint that needs 180001 ms (the clock reads 180003 ms when the
  timeout is handled), and one that answers at once with status 200 and a body, served
  as JSON, that is not JSON.
\<close>

definition unified_cfg :: config where
  "unified_cfg = \<lparr>cfg_domain = ''meta'', cfg_weight = 0.25, cfg_timeout = 180,
     cfg_description = ''Cross-domain synthesis, holistic analysis'', cfg_color = ''META''\<rparr>"

definition slow_endpoint :: endpoint where
  "slow_endpoint = \<lparr>latency_ms = 180001, reply = ClientFailure [], measured_ms = 180003\<rparr>"

definition garbled_endpoint :: endpoint where
  "garbled_endpoint =
     \<lparr>latency_ms = 5, reply = HttpResponse 200 (TextBody ''<html>'') JsonDecodeFailure,
      measured_ms = 5\<rparr>"

text \<open>
  The order of the tuples \<^verbatim>\<open>(-weight, model)\<close>, read on the results: a higher weight
  first, and for equal weights the smaller model name first.
\<close>

definition by_weight_then_id :: "model_response \<Rightarrow> model_response \<Rightarrow> bool" where
  "by_weight_then_id a b \<longleftrightarrow> weight a > weight b \<or> (weight a = weight b \<and> model a < model b)"

text \<open>
  A panel of three entries of \<^verbatim>\<open>MODELS\<close>, two of them of equal weight, an endpoint that
  answers in 5 ms with \<^verbatim>\<open>{"response": "ok"}\<close>, and the result list expected for it.
\<close>

definition llm_cfg :: config where
  "llm_cfg = \<lparr>cfg_domain = ''technical'', cfg_weight = 0.15, cfg_timeout = 120,
     cfg_description = ''Multi-agent systems, orchestration patterns'', cfg_color = ''TECHNICAL''\<rparr>"

definition app_cfg :: config where
  "app_cfg = \<lparr>cfg_domain = ''technical'', cfg_weight = 0.15, cfg_timeout = 120,
     cfg_description = ''Web architecture, SSR, SPA, microservices'', cfg_color = ''TECHNICAL''\<rparr>"

definition panel :: "(string \<times> config) list" where
  "panel = [(''unified-systems-architect'', unified_cfg), (''llm-orchestration-ontology'', llm_cfg),
            (''app-architecture-expert'', app_cfg)]"

definition ok_endpoint :: endpoint where
  "ok_endpoint =
     \<lparr>latency_ms = 5,
      reply = HttpResponse 200 (TextBody ''ok'') (JsonObject [(''response'', ''ok'')]),
      measured_ms = 5\<rparr>"

definition panel_out :: "model_response list" where
  "panel_out = [mk_response ''unified-systems-architect'' unified_cfg (Some ''ok'') 5 ''success'' None,
     mk_response ''app-architecture-expert'' app_cfg (Some ''ok'') 5 ''success'' None,
     mk_response ''llm-orchestration-ontology'' llm_cfg (Some ''ok'') 5 ''success'' None]"

section \<open>Python text primitives\<close>

text \<open>
  The texts are taken to be ASCII. \<^verbatim>\<open>str.isspace\<close> and the class \<^verbatim>\<open>\s\<close> hold of the
  characters 9 to 13, 28 to 31 and 32; the class \<^verbatim>\<open>\w\<close> holds of letters, digits and the
  underscore.
\<close>

definition py_space :: "char \<Rightarrow> bool" where
  "py_space c \<longleftrightarrow> c \<in> set [CHR 0x09, CHR 0x0A, CHR 0x0B, CHR 0x0C, CHR 0x0D,
                               CHR 0x1C, CHR 0x1D, CHR 0x1E, CHR 0x1F, CHR 0x20]"

definition upper_letters :: string where
  "upper_letters = ''ABCDEFGHIJKLMNOPQRSTUVWXYZ''"

definition lower_letters :: string where
  "lower_letters = ''abcdefghijklmnopqrstuvwxyz''"

definition is_word_char :: "char \<Rightarrow> bool" where
  "is_word_char c \<longleftrightarrow> c \<in> set (lower_letters @ upper_letters @ ''0123456789_'')"

definition lower_char :: "char \<Rightarrow> char" where
  "lower_char c = (case map_of (zip upper_letters lower_letters) c of Some l \<Rightarrow> l | None \<Rightarrow> c)"

text \<open>\<^verbatim>\<open>s.lower()\<close>\<close>

definition py_lower :: "string \<Rightarrow> string" where
  "py_lower s = map lower_char s"

text \<open>\<^verbatim>\<open>sub in s\<close>\<close>

fun py_in :: "string \<Rightarrow> string \<Rightarrow> bool" where
  "py_in sub [] = (sub = [])"
| "py_in sub (c # cs) = (take (length sub) (c # cs) = sub \<or> py_in sub cs)"

text \<open>\<^verbatim>\<open>s.strip()\<close>\<close>

definition py_strip :: "string \<Rightarrow> string" where
  "py_strip s = rev (dropWhile py_space (rev (dropWhile py_space s)))"

text \<open>\<^verbatim>\<open>s.split()\<close>: the maximal runs of characters that are not white space.\<close>

fun split_ws :: "string \<Rightarrow> string \<Rightarrow> string list" where
  "split_ws cur [] = (if cur = [] then [] else [cur])"
| "split_ws cur (c # cs) =
     (if py_space c then (if cur = [] then split_ws [] cs else cur # split_ws [] cs)
      else split_ws (cur @ [c]) cs)"

definition py_split :: "string \<Rightarrow> string list" where
  "py_split s = split_ws [] s"

text \<open>\<^verbatim>\<open>' '.join(words)\<close>\<close>

fun join_space :: "string list \<Rightarrow> string" where
  "join_space [] = []"
| "join_space [w] = w"
| "join_space (w # ws) = w @ '' '' @ join_space ws"

text \<open>
  \<^verbatim>\<open>re.split(r'[.!?]\s+', text)\<close>: the text is cut at every terminal punctuation mark that
  is followed by white space, the mark and all the white space after it being dropped.
\<close>

function split_sentences :: "string \<Rightarrow> string \<Rightarrow> string list" where
  "split_sentences cur [] = [cur]"
| "split_sentences cur (c # cs) =
     (if c \<in> set ''.!?'' \<and> cs \<noteq> [] \<and> py_space (hd cs)
      then cur # split_sentences [] (dropWhile py_space cs)
      else split_sentences (cur @ [c]) cs)"
  by pat_completeness auto
termination
  by (relation "measure (\<lambda>(cur, s). length s)")
    (auto simp: le_imp_less_Suc length_dropWhile_le)

definition sentences :: "string \<Rightarrow> string list" where
  "sentences text = split_sentences [] text"

text \<open>\<^verbatim>\<open>re.sub(r'[^\w\s-]', '', sentence)\<close>\<close>

definition strip_punctuation :: "string \<Rightarrow> string" where
  "strip_punctuation s = filter (\<lambda>c. is_word_char c \<or> py_space c \<or> c = CHR ''-'') s"

text \<open>\<^verbatim>\<open>len(set(xs) & set(ys))\<close>\<close>

definition common_count :: "string list \<Rightarrow> string list \<Rightarrow> nat" where
  "common_count xs ys = length (filter (\<lambda>w. w \<in> set ys) (remdups xs))"

text \<open>
  \<^verbatim>\<open>list(set(xs))\<close> lists the distinct members of \<open>xs\<close> in an order that Python leaves
  open; the order is a parameter \<open>so\<close> of the functions that use it, of which only this
  is assumed.
\<close>

definition set_iteration :: "(string list \<Rightarrow> string list) \<Rightarrow> bool" where
  "set_iteration so \<longleftrightarrow> (\<forall>xs. distinct (so xs) \<and> set (so xs) = set xs)"

section \<open>The synthesis engine (consult.py, line 305)\<close>

record extracted_theme =
  theme :: string
  supporting_models :: "string list"
  confidence :: real
  evidence :: "string list"

record detected_conflict =
  topic :: string
  positions :: "(string \<times> string) list"
  severity :: string
  resolution_hint :: "string option"

record action_item =
  action :: string
  priority :: string
  source_models :: "string list"
  item_domain :: string
  rationale :: string

record synthesis_result =
  question :: string
  themes :: "extracted_theme list"
  conflicts :: "detected_conflict list"
  action_items :: "action_item list"
  domain_coverage :: "(string \<times> nat) list"
  consensus_score :: real
  total_models :: nat
  successful_models :: nat
  timestamp :: string

definition ACTION_INDICATORS :: "string list" where
  "ACTION_INDICATORS = [''should'', ''recommend'', ''suggest'', ''consider'', ''implement'',
     ''start with'', ''begin by'', ''first step'', ''priority'', ''critical'',
     ''must'', ''need to'', ''important to'', ''key is'', ''focus on'']"

definition CONFLICT_INDICATORS :: "string list" where
  "CONFLICT_INDICATORS = [''however'', ''alternatively'', ''on the other hand'', ''instead'',
     ''but'', ''conversely'', ''in contrast'', ''unlike'', ''whereas'',
     ''disagree'', ''different approach'', ''better option'']"

definition PRIORITY_HIGH :: "string list" where
  "PRIORITY_HIGH = [''critical'', ''must'', ''essential'', ''urgent'', ''immediately'', ''first'']"

definition PRIORITY_MEDIUM :: "string list" where
  "PRIORITY_MEDIUM = [''should'', ''recommend'', ''important'', ''consider'']"

text \<open>The engine's state: \<^verbatim>\<open>self.responses\<close>.\<close>

record engine =
  responses :: "model_response list"

definition init_engine :: engine where
  "init_engine = \<lparr>responses = []\<rparr>"

text \<open>Python's truth value of an optional text: \<^verbatim>\<open>None\<close> and the empty text are false.\<close>

definition truthy :: "string option \<Rightarrow> bool" where
  "truthy t = (case t of None \<Rightarrow> False | Some s \<Rightarrow> s \<noteq> [])"

definition add_responses :: "engine \<Rightarrow> model_response list \<Rightarrow> engine" where
  "add_responses self rs =
     self\<lparr>responses := filter (\<lambda>r. status r = ''success'' \<and> truthy (response r)) rs\<rparr>"

text \<open>The text of a stored response; every response that \<^verbatim>\<open>add_responses\<close> stores has one.\<close>

definition text_of :: "model_response \<Rightarrow> string" where
  "text_of r = (case response r of None \<Rightarrow> [] | Some s \<Rightarrow> s)"

text \<open>The only exception that an operation of the engine can raise on texts.\<close>

datatype engine_error = ZeroDivisionError

subsection \<open>Dictionaries in insertion order\<close>

text \<open>\<^verbatim>\<open>d[k].append(v)\<close> on a \<^verbatim>\<open>defaultdict(list)\<close>.\<close>

definition lookup_list :: "('k \<times> 'v list) list \<Rightarrow> 'k \<Rightarrow> 'v list" where
  "lookup_list d k = (case map_of d k of None \<Rightarrow> [] | Some vs \<Rightarrow> vs)"

definition dd_append :: "('k \<times> 'v list) list \<Rightarrow> 'k \<Rightarrow> 'v \<Rightarrow> ('k \<times> 'v list) list" where
  "dd_append d k v = AList.update k (lookup_list d k @ [v]) d"

subsection \<open>\_extract\_key\_phrases\<close>

text \<open>The loop over \<^verbatim>\<open>ACTION_INDICATORS\<close> for one sentence, left at the first indicator found.\<close>

fun phrase_indicator_loop :: "string list \<Rightarrow> string \<Rightarrow> string list \<Rightarrow> string list" where
  "phrase_indicator_loop [] sentence phrases = phrases"
| "phrase_indicator_loop (indicator # rest) sentence phrases =
     (if py_in indicator sentence then
        (let words = py_split (strip_punctuation sentence)
         in if 3 \<le> length words \<and> length words \<le> 15 then phrases @ [join_space words]
            else phrases)
      else phrase_indicator_loop rest sentence phrases)"

definition extract_key_phrases :: "(string list \<Rightarrow> string list) \<Rightarrow> string \<Rightarrow> string list" where
  "extract_key_phrases so text =
     so (fold (phrase_indicator_loop ACTION_INDICATORS) (sentences (py_lower text)) [])"

subsection \<open>\_find\_evidence\<close>

fun evidence_sentence_loop ::
  "string list \<Rightarrow> string \<Rightarrow> string list \<Rightarrow> engine_error + string option" where
  "evidence_sentence_loop phrase_words m [] = Inr None"
| "evidence_sentence_loop phrase_words m (sent # rest) =
     (if length phrase_words = 0 then Inl ZeroDivisionError
      else if real (common_count phrase_words (py_split (py_lower sent)))
                / real (length phrase_words) > 0.3 \<and> length sent < 300
      then Inr (Some (''['' @ m @ ''] '' @ py_strip sent))
      else evidence_sentence_loop phrase_words m rest)"

fun evidence_loop ::
  "string list \<Rightarrow> string list \<Rightarrow> model_response list \<Rightarrow> string list
     \<Rightarrow> engine_error + string list" where
  "evidence_loop phrase_words models [] ev = Inr ev"
| "evidence_loop phrase_words models (r # rs) ev =
     (if model r \<in> set models then
        (case evidence_sentence_loop phrase_words (model r) (sentences (text_of r)) of
           Inl e \<Rightarrow> Inl e
         | Inr None \<Rightarrow> evidence_loop phrase_words models rs ev
         | Inr (Some quote) \<Rightarrow> evidence_loop phrase_words models rs (ev @ [quote]))
      else evidence_loop phrase_words models rs ev)"

definition find_evidence :: "engine \<Rightarrow> string \<Rightarrow> string list \<Rightarrow> engine_error + string list" where
  "find_evidence self phrase models =
     evidence_loop (remdups (py_split (py_lower phrase))) models (responses self) []"

subsection \<open>extract\_themes\<close>

definition response_phrases ::
  "(string list \<Rightarrow> string list) \<Rightarrow> engine \<Rightarrow> (string \<times> string list) list" where
  "response_phrases so self =
     fold (\<lambda>r d. AList.update (model r) (extract_key_phrases so (text_of r)) d)
       (responses self) []"

text \<open>The body of the loop over \<^verbatim>\<open>response_phrases.items()\<close>, and the loop.\<close>

definition phrase_models_step ::
  "string \<times> string list \<Rightarrow> (string \<times> string list) list \<Rightarrow> (string \<times> string list) list" where
  "phrase_models_step = (\<lambda>(m, phrases) d. fold (\<lambda>phrase d'. dd_append d' phrase m) phrases d)"

definition phrase_models ::
  "(string \<times> string list) list \<Rightarrow> (string \<times> string list) list" where
  "phrase_models rp = fold phrase_models_step rp []"

fun theme_loop ::
  "engine \<Rightarrow> (string \<times> string list) list \<Rightarrow> extracted_theme list
     \<Rightarrow> engine_error + extracted_theme list" where
  "theme_loop self [] ts = Inr ts"
| "theme_loop self ((phrase, models) # rest) ts =
     (if length models \<ge> 2 then
        (case find_evidence self phrase models of
           Inl e \<Rightarrow> Inl e
         | Inr ev \<Rightarrow>
             theme_loop self rest
               (ts @ [\<lparr>theme = phrase, supporting_models = models,
                        confidence = real (length models) / real (length (responses self)),
                        evidence = take 3 ev\<rparr>]))
      else theme_loop self rest ts)"

definition extract_themes ::
  "(string list \<Rightarrow> string list) \<Rightarrow> engine \<Rightarrow> engine_error + extracted_theme list" where
  "extract_themes so self =
     (if responses self = [] then Inr []
      else case theme_loop self (phrase_models (response_phrases so self)) [] of
             Inl e \<Rightarrow> Inl e
           | Inr ts \<Rightarrow> Inr (take 10 (sort_key (\<lambda>t. - confidence t) ts)))"

subsection \<open>detect\_conflicts\<close>

fun topic_sentence_loop :: "string \<Rightarrow> string list \<Rightarrow> string option" where
  "topic_sentence_loop indicator [] = None"
| "topic_sentence_loop indicator (sent # rest) =
     (if py_in indicator (py_lower sent) \<and> length sent < 200
      then Some (take 100 (py_strip sent))
      else topic_sentence_loop indicator rest)"

definition extract_conflict_topic :: "string \<Rightarrow> string \<Rightarrow> string \<Rightarrow> string option" where
  "extract_conflict_topic text1 text2 indicator =
     (case topic_sentence_loop indicator (sentences text1) of
        Some t \<Rightarrow> Some t
      | None \<Rightarrow> topic_sentence_loop indicator (sentences text2))"

fun position_sentence_loop :: "string list \<Rightarrow> string list \<Rightarrow> string option" where
  "position_sentence_loop topic_words [] = None"
| "position_sentence_loop topic_words (sent # rest) =
     (if common_count topic_words (py_split (py_lower sent)) \<ge> 2
      then Some (take 150 (py_strip sent))
      else position_sentence_loop topic_words rest)"

definition extract_position :: "string \<Rightarrow> string \<Rightarrow> string" where
  "extract_position text tpc =
     (case position_sentence_loop (take 5 (py_split (py_lower tpc))) (sentences text) of
        Some p \<Rightarrow> p
      | None \<Rightarrow> take 150 text @ ''...'')"

fun conflict_indicator_loop ::
  "string list \<Rightarrow> model_response \<Rightarrow> model_response \<Rightarrow> detected_conflict list" where
  "conflict_indicator_loop [] r1 r2 = []"
| "conflict_indicator_loop (indicator # rest) r1 r2 =
     (if py_in indicator (py_lower (text_of r1)) \<or> py_in indicator (py_lower (text_of r2)) then
        (case extract_conflict_topic (text_of r1) (text_of r2) indicator of
           None \<Rightarrow> []
         | Some tpc \<Rightarrow>
             if tpc = [] then []
             else [\<lparr>topic = tpc,
                    positions = AList.update (model r2) (extract_position (text_of r2) tpc)
                                  [(model r1, extract_position (text_of r1) tpc)],
                    severity = ''medium'',
                    resolution_hint = Some ''Consider domain context when choosing approach''\<rparr>])
      else conflict_indicator_loop rest r1 r2)"

definition find_conflicts_between ::
  "model_response \<Rightarrow> model_response \<Rightarrow> detected_conflict list" where
  "find_conflicts_between r1 r2 = conflict_indicator_loop CONFLICT_INDICATORS r1 r2"

text \<open>\<^verbatim>\<open>tuple(sorted(c.positions.keys()))\<close>\<close>

definition conflict_key :: "detected_conflict \<Rightarrow> string list" where
  "conflict_key c = sort (map fst (positions c))"

fun dedupe_conflicts_loop ::
  "string list list \<Rightarrow> detected_conflict list \<Rightarrow> detected_conflict list" where
  "dedupe_conflicts_loop seen [] = []"
| "dedupe_conflicts_loop seen (c # cs) =
     (if conflict_key c \<notin> set seen then c # dedupe_conflicts_loop (conflict_key c # seen) cs
      else dedupe_conflicts_loop seen cs)"

definition dedupe_conflicts :: "detected_conflict list \<Rightarrow> detected_conflict list" where
  "dedupe_conflicts cs = dedupe_conflicts_loop [] cs"

text \<open>The two nested loops over \<^verbatim>\<open>self.responses\<close> and \<^verbatim>\<open>self.responses[i+1:]\<close>.\<close>

fun pair_loop :: "model_response list \<Rightarrow> detected_conflict list" where
  "pair_loop [] = []"
| "pair_loop (r1 # rest) = concat (map (find_conflicts_between r1) rest) @ pair_loop rest"

definition detect_conflicts :: "engine \<Rightarrow> detected_conflict list" where
  "detect_conflicts self =
     (if length (responses self) < 2 then []
      else take 5 (dedupe_conflicts (pair_loop (responses self))))"

subsection \<open>extract\_actions\<close>

fun determine_priority_loop :: "string list \<Rightarrow> string \<Rightarrow> bool" where
  "determine_priority_loop [] text = False"
| "determine_priority_loop (w # ws) text = (if py_in w text then True else determine_priority_loop ws text)"

definition determine_priority :: "string \<Rightarrow> string" where
  "determine_priority text =
     (if determine_priority_loop PRIORITY_HIGH text then ''high''
      else if determine_priority_loop PRIORITY_MEDIUM text then ''medium''
      else ''low'')"

fun action_indicator_loop ::
  "string list \<Rightarrow> model_response \<Rightarrow> string \<Rightarrow> action_item list \<Rightarrow> action_item list" where
  "action_indicator_loop [] r sent actions = actions"
| "action_indicator_loop (indicator # rest) r sent actions =
     (if py_in indicator (py_lower sent) \<and> length sent > 20 then
        actions @ [\<lparr>action = take 200 (py_strip sent),
                      priority = determine_priority (py_lower sent),
                      source_models = [model r],
                      item_domain = domain r,
                      rationale = ''Recommended by '' @ model r\<rparr>]
      else action_indicator_loop rest r sent actions)"

definition extract_actions_from_response :: "model_response \<Rightarrow> action_item list" where
  "extract_actions_from_response r =
     fold (action_indicator_loop ACTION_INDICATORS r) (sentences (text_of r)) []"

text \<open>\<^verbatim>\<open>{"high": 0, "medium": 1, "low": 2}.get(a.priority, 3)\<close>\<close>

definition priority_order :: "string \<Rightarrow> nat" where
  "priority_order p =
     (if p = ''high'' then 0 else if p = ''medium'' then 1 else if p = ''low'' then 2 else 3)"

text \<open>\<^verbatim>\<open>min(group, key=...)\<close>: the first member of the least rank.\<close>

fun min_by_priority :: "action_item \<Rightarrow> action_item list \<Rightarrow> action_item" where
  "min_by_priority b [] = b"
| "min_by_priority b (a # as) =
     min_by_priority (if priority_order (priority a) < priority_order (priority b) then a else b) as"

definition merge_group :: "(string list \<Rightarrow> string list) \<Rightarrow> action_item list \<Rightarrow> action_item" where
  "merge_group so grp =
     (let best = min_by_priority (hd grp) (tl grp);
          all_models = so (concat (map source_models grp))
      in \<lparr>action = action best, priority = priority best, source_models = all_models,
          item_domain = item_domain best,
          rationale = ''Recommended by '' @ show_nat (length all_models) @ '' model(s)''\<rparr>)"

definition dedupe_actions ::
  "(string list \<Rightarrow> string list) \<Rightarrow> action_item list \<Rightarrow> action_item list" where
  "dedupe_actions so actions =
     (if actions = [] then []
      else map (\<lambda>(k, grp). merge_group so grp)
             (fold (\<lambda>a groups. dd_append groups (py_lower (take 50 (action a))) a) actions []))"

definition extract_actions :: "(string list \<Rightarrow> string list) \<Rightarrow> engine \<Rightarrow> action_item list" where
  "extract_actions so self =
     take 10 (sort_key (\<lambda>a. priority_order (priority a))
       (dedupe_actions so (concat (map extract_actions_from_response (responses self)))))"

subsection \<open>calculate\_consensus and synthesize\<close>

definition calculate_consensus ::
  "(string list \<Rightarrow> string list) \<Rightarrow> engine \<Rightarrow> engine_error + real" where
  "calculate_consensus so self =
     (if length (responses self) < 2 then Inr 1
      else case extract_themes so self of
             Inl e \<Rightarrow> Inl e
           | Inr ts \<Rightarrow>
               (let cs = detect_conflicts self;
                    theme_score = sum_list (map confidence ts) / real (max (length ts) 1);
                    conflict_penalty = real (length cs) * 0.1
                in Inr (max 0 (min 1 (theme_score - conflict_penalty)))))"

text \<open>\<^verbatim>\<open>dict(Counter(r.domain for r in self.responses))\<close>\<close>

definition counter_add :: "(string \<times> nat) list \<Rightarrow> string \<Rightarrow> (string \<times> nat) list" where
  "counter_add d k = AList.update k (case map_of d k of None \<Rightarrow> 1 | Some n \<Rightarrow> n + 1) d"

text \<open>
  \<^verbatim>\<open>synthesize\<close>; \<open>now\<close> is the reading of the clock that the default of \<^verbatim>\<open>timestamp\<close> takes.
\<close>

definition synthesize ::
  "(string list \<Rightarrow> string list) \<Rightarrow> string \<Rightarrow> engine \<Rightarrow> string
     \<Rightarrow> engine_error + synthesis_result" where
  "synthesize so now self q =
     (case extract_themes so self of
        Inl e \<Rightarrow> Inl e
      | Inr ts \<Rightarrow>
          (let cs = detect_conflicts self;
               acts = extract_actions so self;
               coverage = fold (\<lambda>r d. counter_add d (domain r)) (responses self) []
           in case calculate_consensus so self of
                Inl e \<Rightarrow> Inl e
              | Inr score \<Rightarrow>
                  Inr \<lparr>question = q, themes = ts, conflicts = cs, action_items = acts,
                       domain_coverage = coverage, consensus_score = score,
                       total_models = length (responses self)
                         + length (filter (\<lambda>r. status r \<noteq> ''success'') (responses self)),
                       successful_models = length (responses self),
                       timestamp = now\<rparr>))"

text \<open>
  Concrete inputs for the engine: three successful results, two of which give the same
  recommendation and one of which contrasts.
\<close>

definition mk_success :: "string \<Rightarrow> string \<Rightarrow> string \<Rightarrow> model_response" where
  "mk_success name dmn txt =
     \<lparr>model = name, domain = dmn, response = Some txt, weight = 0.15, duration_ms = 5,
      status = ''success'', error = None\<rparr>"

definition wal_results :: "model_response list" where
  "wal_results =
     [mk_success ''a'' ''technical'' ''You should start with a WAL. However a simpler log may suffice.'',
      mk_success ''b'' ''technical'' ''You should start with a WAL! It is durable.'',
      mk_success ''c'' ''meta'' ''Consider a simpler append log instead.'']"

text \<open>The theme that these three results share, and a single successful result.\<close>

definition wal_theme :: extracted_theme where
  "wal_theme = \<lparr>theme = ''you should start with a wal'', supporting_models = [''a'', ''b''],
     confidence = 2 / 3,
     evidence = [''[a] You should start with a WAL'', ''[b] You should start with a WAL'']\<rparr>"

definition lone_result :: "model_response list" where
  "lone_result = [mk_success ''a'' ''technical'' ''You should start with a write-ahead log.'']"

text \<open>
  A result set with one timed-out, one failed and one successful result.
\<close>

definition mixed_results :: "model_response list" where
  "mixed_results =
     [mk_response ''unified-systems-architect'' unified_cfg None 180000 ''timeout''
        (Some ''Timeout after 180s''),
      mk_response ''llm-orchestration-ontology'' llm_cfg None 5 ''error'' (Some ''HTTP 500: ''),
      mk_response ''app-architecture-expert'' app_cfg (Some ''ok'') 5 ''success'' None]"

text \<open>
  A result set in which only the last result is stored by \<^verbatim>\<open>add_responses\<close>: a success
  whose response is the empty text, a success without a response, a failure that carries
  a text, and a success with a text.
\<close>

definition blank_results :: "model_response list" where
  "blank_results =
     [mk_response ''unified-systems-architect'' unified_cfg (Some []) 5 ''success'' None,
      mk_response ''llm-orchestration-ontology'' llm_cfg None 5 ''success'' None,
      mk_response ''llm-orchestration-ontology'' llm_cfg (Some ''partial'') 5 ''error''
        (Some ''HTTP 500: ''),
      mk_response ''app-architecture-expert'' app_cfg (Some ''ok'') 5 ''success'' None]"

section \<open>The admission gate of consult\<close>

text \<open>
  \<^verbatim>\<open>consult\<close> creates one task per model; each task runs
  \<^verbatim>\<open>async with semaphore: return await query_model(...)\<close>. A task is pending until it has
  acquired the semaphore, in flight while it is inside \<^verbatim>\<open>query_model\<close>, and finished once
  it has released the semaphore. \<^verbatim>\<open>asyncio.Semaphore\<close> is taken by its contract: a counter
  that \<^verbatim>\<open>acquire\<close> decrements, blocking the caller while the counter is 0, and that
  \<^verbatim>\<open>release\<close> increments.
\<close>

datatype task_state = Pending | InFlight | Finished

record dispatch_state =
  sem_value :: nat
  tasks :: "task_state list"

text \<open>The state after \<^verbatim>\<open>asyncio.Semaphore(max_concurrent)\<close> and the creation of the tasks.\<close>

definition start :: "nat \<Rightarrow> nat \<Rightarrow> dispatch_state" where
  "start max_concurrent n = \<lparr>sem_value = max_concurrent, tasks = replicate n Pending\<rparr>"

text \<open>
  The two things that can happen: task \<open>i\<close> enters \<^verbatim>\<open>async with semaphore\<close>, or task \<open>i\<close>
  leaves it. An event that cannot happen in a state gives \<open>None\<close>: a pending task cannot
  acquire while the counter is 0.
\<close>

datatype event = Acquire nat | Release nat

fun apply_event :: "dispatch_state \<Rightarrow> event \<Rightarrow> dispatch_state option" where
  "apply_event s (Acquire i) =
     (if i < length (tasks s) \<and> tasks s ! i = Pending \<and> 0 < sem_value s
      then Some (s\<lparr>sem_value := sem_value s - 1, tasks := (tasks s)[i := InFlight]\<rparr>)
      else None)"
| "apply_event s (Release i) =
     (if i < length (tasks s) \<and> tasks s ! i = InFlight
      then Some (s\<lparr>sem_value := sem_value s + 1, tasks := (tasks s)[i := Finished]\<rparr>)
      else None)"

text \<open>A schedule is a list of events; it runs as far as every event can happen.\<close>

fun run :: "dispatch_state \<Rightarrow> event list \<Rightarrow> dispatch_state option" where
  "run s [] = Some s"
| "run s (e # es) = (case apply_event s e of None \<Rightarrow> None | Some s' \<Rightarrow> run s' es)"

definition in_flight :: "dispatch_state \<Rightarrow> nat" where
  "in_flight s = length (filter (\<lambda>t. t = InFlight) (tasks s))"

section \<open>Properties of the dispatcher\<close>

lemma least_item_le_start: "item_key (least_item m xs) \<le> item_key m"
proof (induction xs arbitrary: m)
  case Nil
  show ?case by simp
next
  case (Cons x xs)
  have "item_key (least_item (if item_key x < item_key m then x else m) xs)
          \<le> item_key (if item_key x < item_key m then x else m)"
    by (rule Cons.IH)
  also have "\<dots> \<le> item_key m" by (simp add: less_imp_le)
  finally show ?case by simp
qed

lemma least_item_le_mem: "y \<in> set xs \<Longrightarrow> item_key (least_item m xs) \<le> item_key y"
proof (induction xs arbitrary: m)
  case Nil
  then show ?case by simp
next
  case (Cons x xs)
  let ?m' = "if item_key x < item_key m then x else m"
  show ?case
  proof (cases "y = x")
    case True
    have "item_key (least_item ?m' xs) \<le> item_key ?m'" by (rule least_item_le_start)
    also have "\<dots> \<le> item_key x" by (simp add: not_less)
    finally show ?thesis using True by simp
  next
    case False
    with Cons.prems have "y \<in> set xs" by simp
    then show ?thesis using Cons.IH by simp
  qed
qed

lemma heappop_least:
  assumes "h \<noteq> []"
  shows "fst (heappop h) \<in> set h"
    and "snd (heappop h) = remove1 (fst (heappop h)) h"
    and "\<forall>y\<in>set h. item_key (fst (heappop h)) \<le> item_key y"
proof -
  from assms obtain x xs where h: "h = x # xs" by (cases h) auto
  show "fst (heappop h) \<in> set h"
    using least_item_mem [of x xs] by (simp add: heappop_def h Let_def)
  show "snd (heappop h) = remove1 (fst (heappop h)) h"
    by (simp add: heappop_def Let_def)
  show "\<forall>y\<in>set h. item_key (fst (heappop h)) \<le> item_key y"
    using least_item_le_start [of x xs] least_item_le_mem [of _ xs x]
    by (auto simp: heappop_def h Let_def)
qed

lemma drain_sorted:
  "\<exists>its. drain h acc = acc @ map (snd \<circ> snd) its \<and> mset its = mset h
         \<and> sorted (map item_key its)"
proof (induction h acc rule: drain.induct)
  case (1 h acc)
  show ?case
  proof (cases "h = []")
    case True
    then have "drain h acc = acc @ map (snd \<circ> snd) []" by (simp add: drain.simps)
    with True show ?thesis by (intro exI [of _ "[]"]) simp
  next
    case False
    define m where "m = fst (heappop h)"
    define h' where "h' = snd (heappop h)"
    have m_in: "m \<in> set h" and h': "h' = remove1 m h"
      and least: "\<forall>y\<in>set h. item_key m \<le> item_key y"
      using heappop_least [OF False] by (simp_all add: m_def h'_def)
    from "1" [OF False] obtain its where
      d: "drain h' (acc @ [snd (snd m)]) = (acc @ [snd (snd m)]) @ map (snd \<circ> snd) its"
      and ms: "mset its = mset h'" and so: "sorted (map item_key its)"
      unfolding m_def h'_def by blast
    have "set its = set h'" using ms by (rule mset_eq_setD)
    also have "\<dots> \<subseteq> set h" unfolding h' by (rule set_remove1_subset)
    finally have sub: "set its \<subseteq> set h" .
    have "drain h acc = drain h' (acc @ [snd (snd m)])"
      using False by (subst drain.simps) (simp add: m_def h'_def)
    then have 1: "drain h acc = acc @ map (snd \<circ> snd) (m # its)" using d by simp
    have 2: "mset (m # its) = mset h" using ms m_in by (simp add: h')
    have 3: "sorted (map item_key (m # its))" using so least sub by auto
    from 1 2 3 show ?thesis by blast
  qed
qed

lemma collect_Inr:
  "collect h rs = Inr h' \<Longrightarrow> \<exists>ok. rs = map Inr ok \<and> h' = h @ map heap_entry ok"
proof (induction rs arbitrary: h)
  case Nil
  then show ?case by simp
next
  case (Cons a rs)
  show ?case
  proof (cases a)
    case (Inl e)
    with Cons.prems show ?thesis by simp
  next
    case (Inr r)
    with Cons.prems have "collect (heappush h (heap_entry r)) rs = Inr h'" by simp
    from Cons.IH [OF this] obtain ok where
      "rs = map Inr ok" "h' = heappush h (heap_entry r) @ map heap_entry ok" by blast
    then have "a # rs = map Inr (r # ok) \<and> h' = h @ map heap_entry (r # ok)"
      using Inr by (simp add: heappush_def)
    then show ?thesis by (rule exI [of _ "r # ok"])
  qed
qed

lemma collect_map_Inr: "collect h (map Inr ok) = Inr (h @ map heap_entry ok)"
  by (induction ok arbitrary: h) (simp_all add: heappush_def)

lemma query_model_fields:
  "fst (query_model ep sess name prompt cfg) = Inr r \<Longrightarrow> model r = name \<and> weight r = cfg_weight cfg"
  by (auto simp: query_model_def Let_def mk_response_def
      split: post_outcome.splits http_reply.splits json_result.splits text_result.splits
        if_splits)

lemma query_model_session:
  "snd (query_model ep sess name prompt cfg) = sess @ [(name, prompt)]"
  by (auto simp: query_model_def Let_def
      split: post_outcome.splits http_reply.splits json_result.splits text_result.splits
        if_splits)

lemma item_key_heap_entry: "item_key (heap_entry r) = (- weight r, model r)"
  by (simp add: item_key_def heap_entry_def)

lemma bounded_query_fields:
  "bounded_query net q nc = Inr r \<Longrightarrow> model r = fst nc \<and> weight r = cfg_weight (snd nc)"
  unfolding bounded_query_def by (rule query_model_fields)

lemma consult_Inr:
  assumes "consult net q models order = Inr out"
  shows "\<exists>ok. map (\<lambda>i. bounded_query net q (models ! i)) order = map Inr ok
            \<and> out = drain (map heap_entry ok) []"
proof -
  from assms obtain h where
    h: "collect [] (map (\<lambda>i. bounded_query net q (models ! i)) order) = Inr h"
    and out: "out = drain h []"
    by (auto simp: consult_def split: sum.splits)
  from collect_Inr [OF h] out show ?thesis by auto
qed

lemma drain_unique:
  assumes ms: "mset h = mset h'" and d: "distinct (map item_key h)"
  shows "drain h [] = drain h' []"
proof -
  obtain its where its: "drain h [] = map (snd \<circ> snd) its" "mset its = mset h"
    "sorted (map item_key its)"
    using drain_sorted [of h "[]"] by auto
  obtain its' where its': "drain h' [] = map (snd \<circ> snd) its'" "mset its' = mset h'"
    "sorted (map item_key its')"
    using drain_sorted [of h' "[]"] by auto
  have m1: "mset (map item_key its) = mset (map item_key h)" using its(2) by simp
  have m2: "mset (map item_key its') = mset (map item_key h)" using its'(2) ms by simp
  have d1: "distinct (map item_key its)" using m1 d by (metis mset_eq_imp_distinct_iff)
  have d2: "distinct (map item_key its')" using m2 d by (metis mset_eq_imp_distinct_iff)
  have "set (map item_key its) = set (map item_key its')"
    using m1 m2 by (metis mset_eq_setD)
  with its(3) its'(3) d1 d2 have keys: "map item_key its = map item_key its'"
    by (intro sorted_distinct_set_unique)
  have sets: "set its = set h" "set its' = set h"
    using its(2) its'(2) ms by (metis mset_eq_setD)+
  have "inj_on item_key (set h)" using d by (simp add: distinct_map)
  then have "inj_on item_key (set its \<union> set its')" using sets by simp
  with keys have "its = its'" by (simp add: inj_on_map_eq_map)
  then show ?thesis using its(1) its'(1) by simp
qed

lemma drain_strict:
  assumes d: "distinct (map item_key h)"
    and ent0: "\<forall>a\<in>set h. a = heap_entry (snd (snd a))"
  shows "sorted_wrt by_weight_then_id (drain h [])"
proof -
  obtain its where its: "drain h [] = map (snd \<circ> snd) its"
    "mset its = mset h" "sorted (map item_key its)"
    using drain_sorted [of h "[]"] by auto
  have "mset (map item_key its) = mset (map item_key h)"
    using its(2) by simp
  then have "distinct (map item_key its)" using d by (metis mset_eq_imp_distinct_iff)
  with its(3) have "sorted_wrt (<) (map item_key its)"
    by (simp add: strict_sorted_iff)
  then have lt: "sorted_wrt (\<lambda>a b. item_key a < item_key b) its"
    by (simp add: sorted_wrt_map)
  have "set its = set h" using its(2) by (rule mset_eq_setD)
  with ent0 have ent: "\<forall>a\<in>set its. a = heap_entry (snd (snd a))" by simp
  have "sorted_wrt (\<lambda>a b. by_weight_then_id (snd (snd a)) (snd (snd b))) its"
  proof (rule sorted_wrt_mono_rel [OF _ lt])
    fix a b
    assume a: "a \<in> set its" and b: "b \<in> set its" and ab: "item_key a < item_key b"
    from a b ent have "a = heap_entry (snd (snd a))" "b = heap_entry (snd (snd b))" by auto
    then have "(- weight (snd (snd a)), model (snd (snd a)))
                 < (- weight (snd (snd b)), model (snd (snd b)))"
      using ab item_key_heap_entry by metis
    then show "by_weight_then_id (snd (snd a)) (snd (snd b))"
      by (auto simp: by_weight_then_id_def less_prod_def)
  qed
  then show ?thesis by (simp add: its(1) sorted_wrt_map comp_def)
qed

text \<open>
  What the two handlers of \<^verbatim>\<open>query_model\<close> do cover: a timeout, a client error and a status
  other than 200 whose text can be read each give a result that records the failure; and
  when no task raises,
  \<^verbatim>\<open>consult\<close> returns one result per completed task.
\<close>

lemma query_model_caught:
  "reply ep = ClientFailure msg
     \<or> reply ep = HttpResponse code (TextBody txt) js \<and> code \<noteq> 200
     \<or> reply ep = HttpResponse code (TextClientError msg) js \<and> code \<noteq> 200
     \<or> 0 < cfg_timeout cfg \<and> cfg_timeout cfg * 1000 < latency_ms ep \<Longrightarrow>
   \<exists>r. fst (query_model ep sess name prompt cfg) = Inr r \<and> status r \<noteq> ''success''
        \<and> response r = None \<and> error r \<noteq> None"
  by (auto simp: query_model_def session_post_def Let_def mk_response_def)

lemma consult_length:
  assumes "consult net q models order = Inr out"
  shows "length out = length order"
proof -
  from consult_Inr [OF assms] obtain ok where
    ok: "map (\<lambda>i. bounded_query net q (models ! i)) order = map Inr ok"
    and out: "out = drain (map heap_entry ok) []" by blast
  from drain_sorted [of "map heap_entry ok" "[]"] obtain its where
    "drain (map heap_entry ok) [] = map (snd \<circ> snd) its" "mset its = mset (map heap_entry ok)"
    by auto
  then have "length out = length ok" unfolding out by (metis length_map size_mset)
  also have "\<dots> = length order" using ok by (metis length_map)
  finally show ?thesis .
qed

text \<open>
  The results that \<^verbatim>\<open>consult\<close> returns carry the model names of the tasks, each once: the
  list that the caller hands to the engine has pairwise distinct model names.
\<close>

lemma consult_models:
  assumes "consult net q models order = Inr out"
  shows "mset (map model out) = mset (map (\<lambda>i. fst (models ! i)) order)"
proof -
  let ?f = "\<lambda>i. bounded_query net q (models ! i)"
  from consult_Inr [OF assms] obtain ok where
    ok: "map ?f order = map Inr ok" and out: "out = drain (map heap_entry ok) []" by blast
  from drain_sorted [of "map heap_entry ok" "[]"] obtain its where
    its: "drain (map heap_entry ok) [] = map (snd \<circ> snd) its"
      "mset its = mset (map heap_entry ok)"
    by auto
  have "mset out = image_mset (snd \<circ> snd) (mset its)" by (simp add: out its(1))
  also have "\<dots> = image_mset (snd \<circ> snd) (mset (map heap_entry ok))" by (simp add: its(2))
  also have "\<dots> = mset ok" by (simp add: heap_entry_def comp_def multiset.map_comp)
  finally have m: "mset out = mset ok" .
  have len: "length ok = length order" using ok by (metis length_map)
  have "map model ok = map (\<lambda>i. fst (models ! i)) order"
  proof (rule nth_equalityI)
    show "length (map model ok) = length (map (\<lambda>i. fst (models ! i)) order)"
      by (simp add: len)
  next
    fix k
    assume "k < length (map model ok)"
    then have k: "k < length order" by (simp add: len)
    have "map ?f order ! k = map Inr ok ! k" using ok by simp
    then have "?f (order ! k) = Inr (ok ! k)" using k len by simp
    from bounded_query_fields [OF this] have "model (ok ! k) = fst (models ! (order ! k))"
      by simp
    then show "map model ok ! k = map (\<lambda>i. fst (models ! i)) order ! k"
      using k len by simp
  qed
  moreover have "mset (map model out) = mset (map model ok)" using m by (metis mset_map)
  ultimately show ?thesis by simp
qed

lemma consult_distinct_models:
  assumes "consult net q models order = Inr out"
    and "distinct (map fst models)" and "mset order = mset [0..<length models]"
  shows "distinct (map model out)"
proof -
  have "mset (map (\<lambda>i. fst (models ! i)) order)
          = mset (map (\<lambda>i. fst (models ! i)) [0..<length models])"
    using assms(3) by (metis mset_map)
  also have "map (\<lambda>i. fst (models ! i)) [0..<length models] = map fst models"
    by (rule nth_equalityI) simp_all
  finally have "mset (map model out) = mset (map fst models)"
    using consult_models [OF assms(1)] by simp
  then show ?thesis using assms(2) by (metis mset_eq_imp_distinct_iff)
qed

text \<open>
  Claim C1 (the dispatcher never raises on a per-expert failure, malformed payloads
  included). \<^verbatim>\<open>query_model\<close> catches \<^verbatim>\<open>asyncio.TimeoutError\<close> and \<^verbatim>\<open>aiohttp.ClientError\<close>
  only: when an expert answers with status 200 and a body that is not JSON, the
  \<^verbatim>\<open>JSONDecodeError\<close> of \<^verbatim>\<open>resp.json()\<close> leaves \<^verbatim>\<open>query_model\<close> and then \<^verbatim>\<open>consult\<close>, which
  returns no result list at all.
\<close>

theorem consult_malformed_payload_raises:
  "fst (query_model garbled_endpoint [] ''unified-systems-architect'' ''q'' unified_cfg)
     = Inl JSONDecodeError
   \<and> consult (\<lambda>n. garbled_endpoint) ''q'' [(''unified-systems-architect'', unified_cfg)] [0]
     = Inl JSONDecodeError"
  by (simp add: consult_def bounded_query_def query_model_def session_post_def
      unified_cfg_def garbled_endpoint_def Let_def)

text \<open>
  Claim C8, as the code has it: a call whose elapsed time exceeds the expert's own budget,
  a positive number of seconds, yields a result with status \<^verbatim>\<open>timeout\<close>, no response, the
  duration that the clock shows, and the error text \<^verbatim>\<open>Timeout after <timeout>s\<close>, the budget
  being in seconds; exactly one request is posted for the call, so there is no retry.
\<close>

theorem query_model_timeout:
  "0 < cfg_timeout cfg \<Longrightarrow> cfg_timeout cfg * 1000 < latency_ms ep \<Longrightarrow>
   query_model ep sess name prompt cfg =
     (Inr (mk_response name cfg None (measured_ms ep) ''timeout''
            (Some (''Timeout after '' @ show_nat (cfg_timeout cfg) @ ''s''))),
      sess @ [(name, prompt)])"
  by (simp add: query_model_def session_post_def Let_def)

theorem query_model_timeout_witness:
  "0 < cfg_timeout unified_cfg
   \<and> cfg_timeout unified_cfg * 1000 < latency_ms slow_endpoint
   \<and> query_model slow_endpoint [] ''unified-systems-architect'' ''q'' unified_cfg =
     (Inr (mk_response ''unified-systems-architect'' unified_cfg None 180003 ''timeout''
            (Some ''Timeout after 180s'')),
      [(''unified-systems-architect'', ''q'')])"
  using query_model_timeout [of unified_cfg slow_endpoint "[]" "''unified-systems-architect''" "''q''"]
  by (simp add: unified_cfg_def slow_endpoint_def show_nat.simps digit_char_def)

text \<open>
  Claim C8 as stated fails: with the budget of 180 seconds the error text is
  \<^verbatim>\<open>Timeout after 180s\<close>, not \<^verbatim>\<open>Timeout after 180000ms\<close>.
\<close>

theorem timeout_message_counterexample:
  "0 < cfg_timeout unified_cfg
   \<and> cfg_timeout unified_cfg * 1000 < latency_ms slow_endpoint
   \<and> map_sum id error
        (fst (query_model slow_endpoint [] ''unified-systems-architect'' ''q'' unified_cfg))
     = Inr (Some ''Timeout after 180s'')
   \<and> map_sum id error
        (fst (query_model slow_endpoint [] ''unified-systems-architect'' ''q'' unified_cfg))
     \<noteq> Inr (Some ''Timeout after 180000ms'')"
  by (simp add: query_model_def session_post_def unified_cfg_def slow_endpoint_def Let_def
      mk_response_def show_nat.simps digit_char_def)

text \<open>
  Claim C4: when every call returns a result, the list returned by \<^verbatim>\<open>consult\<close> is sorted
  strictly by descending weight, ties broken by ascending model name, and it is the same
  list whatever the order in which the calls complete. The model names are the keys of a
  dictionary, hence distinct; a completion order is a permutation of the task positions.
\<close>

theorem consult_order:
  assumes dist: "distinct (map fst models)"
    and p1: "mset order = mset [0..<length models]"
    and p2: "mset order' = mset [0..<length models]"
    and run: "consult net q models order = Inr out"
  shows "sorted_wrt by_weight_then_id out \<and> consult net q models order' = Inr out"
proof -
  let ?f = "\<lambda>i. bounded_query net q (models ! i)"
  from consult_Inr [OF run] obtain ok where
    ok: "map ?f order = map Inr ok" and out: "out = drain (map heap_entry ok) []" by blast
  define g where "g i = (case ?f i of Inr r \<Rightarrow> r)" for i
  have set_eq: "set order = {0..<length models}" "set order' = {0..<length models}"
    using p1 p2 by (metis mset_eq_setD set_upt)+
  have len: "length ok = length order" using ok by (metis length_map)
  have nth: "?f (order ! k) = Inr (ok ! k)" if "k < length order" for k
  proof -
    have "map ?f order ! k = map Inr ok ! k" using ok by simp
    then show ?thesis using that len by simp
  qed
  have ok_eq: "ok = map g order"
    by (rule nth_equalityI) (simp_all add: len g_def nth)
  have fg: "?f i = Inr (g i)" if "i \<in> set order" for i
  proof -
    from that obtain k where k: "k < length order" "order ! k = i"
      by (auto simp: in_set_conv_nth)
    then have "?f i = Inr (ok ! k)" using nth by blast
    then show ?thesis by (simp add: g_def)
  qed
  have f': "map ?f order' = map Inr (map g order')" using fg set_eq by simp
  have key: "item_key (heap_entry (g i)) = (- cfg_weight (snd (models ! i)), fst (models ! i))"
    if "i \<in> set order" for i
    using bounded_query_fields [OF fg [OF that]] by (simp add: item_key_heap_entry)
  have d_order: "distinct order" using p1 by (metis distinct_upt mset_eq_imp_distinct_iff)
  have inj: "inj_on (\<lambda>i. item_key (heap_entry (g i))) (set order)"
  proof (rule inj_onI)
    fix i j
    assume i: "i \<in> set order" and j: "j \<in> set order"
      and e: "item_key (heap_entry (g i)) = item_key (heap_entry (g j))"
    from e key [OF i] key [OF j] have "fst (models ! i) = fst (models ! j)" by simp
    moreover have "i < length models" "j < length models" using i j set_eq by auto
    ultimately show "i = j"
      using nth_eq_iff_index_eq [OF dist, of i j] by simp
  qed
  have d_keys: "distinct (map item_key (map heap_entry ok))"
    using d_order inj by (simp add: ok_eq distinct_map comp_def)
  have "\<forall>a\<in>set (map heap_entry ok). a = heap_entry (snd (snd a))"
    by (auto simp: heap_entry_def)
  with d_keys have sorted_out: "sorted_wrt by_weight_then_id out"
    unfolding out by (rule drain_strict)
  have "mset (map heap_entry ok) = mset (map heap_entry (map g order'))"
    using p1 p2 by (simp add: ok_eq)
  then have "drain (map heap_entry ok) [] = drain (map heap_entry (map g order')) []"
    using d_keys by (rule drain_unique)
  moreover have "consult net q models order' = Inr (drain (map heap_entry (map g order')) [])"
    by (simp add: consult_def f' collect_map_Inr del: map_map)
  ultimately show ?thesis using sorted_out out by simp
qed

theorem consult_order_witness: 
  "distinct (map fst panel) \<and> mset [2, 0, 1] = mset [0..<length panel]
   \<and> mset [1, 2, 0] = mset [0..<length panel]
   \<and> consult (\<lambda>n. ok_endpoint) ''q'' panel [2, 0, 1] = Inr panel_out
   \<and> sorted_wrt by_weight_then_id panel_out
   \<and> consult (\<lambda>n. ok_endpoint) ''q'' panel [1, 2, 0] = Inr panel_out"
proof -
  have d: "distinct (map fst panel)" by (simp add: panel_def)
  have p1: "mset [2, 0, 1] = mset [0..<length panel]" by (simp add: panel_def upt_rec)
  have p2: "mset [1, 2, 0] = mset [0..<length panel]" by (simp add: panel_def upt_rec)
  have run: "consult (\<lambda>n. ok_endpoint) ''q'' panel [2, 0, 1] = Inr panel_out"
    by (simp add: consult_def bounded_query_def query_model_def session_post_def
      panel_def ok_endpoint_def panel_out_def unified_cfg_def llm_cfg_def app_cfg_def Let_def
      mk_response_def dict_get_def heappush_def heap_entry_def drain.simps heappop_def item_key_def)
  from consult_order [OF d p1 p2 run] d p1 p2 run show ?thesis by simp
qed

section \<open>Properties of the synthesis engine\<close>

lemmas text_defs = py_space_def upper_letters_def lower_letters_def is_word_char_def
  lower_char_def py_lower_def py_strip_def py_split_def sentences_def strip_punctuation_def
  common_count_def

lemmas engine_defs = init_engine_def truthy_def add_responses_def text_of_def lookup_list_def
  dd_append_def extract_key_phrases_def find_evidence_def response_phrases_def
  phrase_models_step_def phrase_models_def extract_themes_def extract_conflict_topic_def extract_position_def
  find_conflicts_between_def conflict_key_def dedupe_conflicts_def detect_conflicts_def
  determine_priority_def extract_actions_from_response_def priority_order_def merge_group_def
  dedupe_actions_def extract_actions_def calculate_consensus_def counter_add_def synthesize_def
  ACTION_INDICATORS_def CONFLICT_INDICATORS_def PRIORITY_HIGH_def PRIORITY_MEDIUM_def

text \<open>
  After \<^verbatim>\<open>add_responses\<close> the engine holds successful results only, so the second summand
  of \<^verbatim>\<open>total_models\<close> is always 0 and the total is the number of successes.
\<close>

lemma synthesize_counts:
  "synthesize so now (add_responses self rs) q = Inr res \<Longrightarrow>
     total_models res = length (filter (\<lambda>r. status r = ''success'' \<and> truthy (response r)) rs)
   \<and> successful_models res = total_models res"
  by (auto simp: synthesize_def add_responses_def Let_def split: sum.splits)

text \<open>
  Claim C2 (\<^verbatim>\<open>total_models\<close> is the number of successful results plus the number of failed
  or timed-out ones). \<^verbatim>\<open>synthesize\<close> counts the results whose status is not \<^verbatim>\<open>success\<close> in
  \<^verbatim>\<open>self.responses\<close>, from which \<^verbatim>\<open>add_responses\<close> has already removed them: for one
  timed-out, one failed and one successful result the report has \<^verbatim>\<open>total_models\<close> 1, not 3.
\<close>

theorem synthesize_total_models_counts_successes_only:
  "map_sum id total_models
     (synthesize remdups ''now'' (add_responses init_engine mixed_results) ''q'') = Inr 1
   \<and> map_sum id successful_models
     (synthesize remdups ''now'' (add_responses init_engine mixed_results) ''q'') = Inr 1"
  by (simp add: mixed_results_def mk_response_def unified_cfg_def llm_cfg_def app_cfg_def
      engine_defs text_defs Let_def)

text \<open>
  Claim C10: \<^verbatim>\<open>add_responses\<close> replaces the stored responses by the results of the given
  list whose status is \<^verbatim>\<open>success\<close> and whose response is present and not the empty text,
  whatever the engine held before; hence every extraction pass and \<^verbatim>\<open>synthesize\<close> give the
  same output after the same last call of \<^verbatim>\<open>add_responses\<close>.
\<close>

theorem add_responses_replaces:
  "responses (add_responses self rs)
     = filter (\<lambda>r. status r = ''success'' \<and> response r \<noteq> None \<and> response r \<noteq> Some []) rs
   \<and> add_responses (add_responses self rs0) rs = add_responses self' rs
   \<and> extract_themes so (add_responses self rs) = extract_themes so (add_responses self' rs)
   \<and> detect_conflicts (add_responses self rs) = detect_conflicts (add_responses self' rs)
   \<and> extract_actions so (add_responses self rs) = extract_actions so (add_responses self' rs)
   \<and> calculate_consensus so (add_responses self rs)
       = calculate_consensus so (add_responses self' rs)
   \<and> synthesize so now (add_responses self rs) q = synthesize so now (add_responses self' rs) q"
proof -
  have eq: "add_responses e rs = add_responses e' rs" for e e' :: engine
    by (simp add: add_responses_def)
  have t: "truthy x \<longleftrightarrow> x \<noteq> None \<and> x \<noteq> Some []" for x
    by (cases x) (simp_all add: truthy_def)
  have r: "responses (add_responses self rs)
             = filter (\<lambda>r. status r = ''success'' \<and> response r \<noteq> None \<and> response r \<noteq> Some []) rs"
    by (simp add: add_responses_def t)
  show ?thesis
    unfolding eq [of self self'] eq [of "add_responses self' rs0" self']
      eq [of "add_responses self rs0" self']
    using r eq [of self self'] by simp
qed

theorem add_responses_replaces_witness:
  "responses (add_responses init_engine blank_results)
     = [mk_response ''app-architecture-expert'' app_cfg (Some ''ok'') 5 ''success'' None]
   \<and> responses (add_responses (add_responses init_engine wal_results) blank_results)
     = [mk_response ''app-architecture-expert'' app_cfg (Some ''ok'') 5 ''success'' None]"
proof -
  have f: "filter (\<lambda>r. status r = ''success'' \<and> response r \<noteq> None \<and> response r \<noteq> Some [])
             blank_results
           = [mk_response ''app-architecture-expert'' app_cfg (Some ''ok'') 5 ''success'' None]"
    by (simp add: blank_results_def mk_response_def)
  note t = add_responses_replaces [of init_engine blank_results wal_results init_engine]
  from t have a: "responses (add_responses init_engine blank_results)
       = filter (\<lambda>r. status r = ''success'' \<and> response r \<noteq> None \<and> response r \<noteq> Some [])
           blank_results" by (rule conjunct1)
  from t have b: "add_responses (add_responses init_engine wal_results) blank_results
       = add_responses init_engine blank_results" by blast
  from a b f show ?thesis by simp
qed

subsection \<open>Words of a phrase\<close>

lemma split_ws_words:
  "w \<in> set (split_ws cur s) \<Longrightarrow> \<forall>c\<in>set cur. \<not> py_space c \<Longrightarrow>
     w \<noteq> [] \<and> (\<forall>c\<in>set w. \<not> py_space c)"
proof (induction s arbitrary: cur)
  case Nil
  then show ?case by (auto split: if_splits)
next
  case (Cons a s)
  show ?case
  proof (cases "py_space a")
    case True
    with Cons.prems have "w = cur \<and> cur \<noteq> [] \<or> w \<in> set (split_ws [] s)"
      by (auto split: if_splits)
    then show ?thesis using Cons.IH [of "[]"] Cons.prems(2) by auto
  next
    case False
    with Cons.prems have "w \<in> set (split_ws (cur @ [a]) s)" by simp
    moreover have "\<forall>c\<in>set (cur @ [a]). \<not> py_space c" using False Cons.prems(2) by simp
    ultimately show ?thesis by (rule Cons.IH)
  qed
qed

lemma split_ws_nonempty:
  "cur \<noteq> [] \<or> (\<exists>c\<in>set s. \<not> py_space c) \<Longrightarrow> split_ws cur s \<noteq> []"
  by (induction s arbitrary: cur) auto

lemma join_space_chars: "w \<in> set ws \<Longrightarrow> set w \<subseteq> set (join_space ws)"
  by (induction ws rule: join_space.induct) auto

lemma lower_letters_not_space: "l \<in> set lower_letters \<Longrightarrow> \<not> py_space l"
  by (auto simp: lower_letters_def py_space_def)

lemma lower_char_not_space: "\<not> py_space c \<Longrightarrow> \<not> py_space (lower_char c)"
proof (cases "map_of (zip upper_letters lower_letters) c")
  case None
  assume "\<not> py_space c"
  with None show ?thesis by (simp add: lower_char_def)
next
  case (Some l)
  then have "(c, l) \<in> set (zip upper_letters lower_letters)" by (rule map_of_SomeD)
  then have "l \<in> set lower_letters" by (rule set_zip_rightD)
  then show ?thesis using Some by (simp add: lower_char_def lower_letters_not_space)
qed

lemma joined_words_split:
  assumes "words = py_split s" and "words \<noteq> []"
  shows "py_split (py_lower (join_space words)) \<noteq> []"
proof -
  from assms(2) have "hd words \<in> set words" by simp
  then obtain w where w: "w \<in> set (split_ws [] s)" "w \<in> set words"
    using assms(1) unfolding py_split_def by blast
  from split_ws_words [OF w(1)] obtain c where c: "c \<in> set w" "\<not> py_space c"
    by (cases w) auto
  from c(1) w(2) have "c \<in> set (join_space words)" using join_space_chars by blast
  then have "lower_char c \<in> set (py_lower (join_space words))" by (simp add: py_lower_def)
  moreover have "\<not> py_space (lower_char c)" using c(2) by (rule lower_char_not_space)
  ultimately show ?thesis unfolding py_split_def by (intro split_ws_nonempty) blast
qed

lemma phrase_indicator_loop_phrases:
  "p \<in> set (phrase_indicator_loop inds sentence phrases) \<Longrightarrow>
     p \<in> set phrases \<or> py_split (py_lower p) \<noteq> []"
proof (induction inds)
  case Nil
  then show ?case by simp
next
  case (Cons i inds)
  show ?case
  proof (cases "py_in i sentence")
    case False
    with Cons show ?thesis by simp
  next
    case True
    let ?words = "py_split (strip_punctuation sentence)"
    show ?thesis
    proof (cases "3 \<le> length ?words \<and> length ?words \<le> 15")
      case False
      with True Cons.prems show ?thesis by (auto simp: Let_def)
    next
      case len: True
      with True Cons.prems have "p \<in> set phrases \<or> p = join_space ?words"
        by (auto simp: Let_def)
      moreover have "?words \<noteq> []" using len by auto
      then have "py_split (py_lower (join_space ?words)) \<noteq> []"
        using joined_words_split [of ?words] by simp
      ultimately show ?thesis by auto
    qed
  qed
qed

lemma fold_phrases:
  "p \<in> set (fold (phrase_indicator_loop inds) sents phrases) \<Longrightarrow>
     p \<in> set phrases \<or> py_split (py_lower p) \<noteq> []"
proof (induction sents arbitrary: phrases)
  case Nil
  then show ?case by simp
next
  case (Cons s sents)
  from Cons.prems have "p \<in> set (fold (phrase_indicator_loop inds) sents
                                 (phrase_indicator_loop inds s phrases))" by simp
  from Cons.IH [OF this] show ?case using phrase_indicator_loop_phrases by blast
qed

lemma extract_key_phrases_words:
  assumes "set_iteration so" and "p \<in> set (extract_key_phrases so text)"
  shows "py_split (py_lower p) \<noteq> []"
proof -
  from assms have "p \<in> set (fold (phrase_indicator_loop ACTION_INDICATORS)
                               (sentences (py_lower text)) [])"
    by (simp add: extract_key_phrases_def set_iteration_def)
  from fold_phrases [OF this] show ?thesis by simp
qed

lemma extract_key_phrases_distinct:
  "set_iteration so \<Longrightarrow> distinct (extract_key_phrases so text)"
  by (simp add: extract_key_phrases_def set_iteration_def)

subsection \<open>\_find\_evidence never divides by zero\<close>

lemma evidence_sentence_loop_total:
  "pw \<noteq> [] \<Longrightarrow> \<exists>q. evidence_sentence_loop pw m sents = Inr q"
  by (induction sents) auto

lemma evidence_loop_total:
  "pw \<noteq> [] \<Longrightarrow> \<exists>ev'. evidence_loop pw models rs ev = Inr ev'"
proof (induction rs arbitrary: ev)
  case Nil
  then show ?case by simp
next
  case (Cons r rs)
  from evidence_sentence_loop_total [OF Cons.prems] obtain q where
    "evidence_sentence_loop pw (model r) (sentences (text_of r)) = Inr q" by blast
  then show ?case using Cons.IH [OF Cons.prems] by (cases q) auto
qed

lemma find_evidence_total:
  "py_split (py_lower phrase) \<noteq> [] \<Longrightarrow> \<exists>ev. find_evidence self phrase models = Inr ev"
  unfolding find_evidence_def by (rule evidence_loop_total) simp

subsection \<open>Dictionaries of lists\<close>

lemma lookup_list_dd_append:
  "lookup_list (dd_append d k v) k' = (if k' = k then lookup_list d k @ [v] else lookup_list d k')"
  by (simp add: lookup_list_def dd_append_def update_conv')

lemma distinct_dd_append:
  "distinct (map fst d) \<Longrightarrow> distinct (map fst (dd_append d k v))"
  by (simp add: dd_append_def distinct_update)

lemma fold_dd_append_lookup:
  "distinct ps \<Longrightarrow>
     lookup_list (fold (\<lambda>p d'. dd_append d' p m) ps d) k
       = lookup_list d k @ (if k \<in> set ps then [m] else [])"
proof (induction ps arbitrary: d)
  case Nil
  then show ?case by simp
next
  case (Cons p ps)
  then show ?case by (auto simp: lookup_list_dd_append)
qed

lemma fold_dd_append_distinct:
  "distinct (map fst d) \<Longrightarrow> distinct (map fst (fold (\<lambda>p d'. dd_append d' p m) ps d))"
  by (induction ps arbitrary: d) (simp_all add: distinct_dd_append)

lemma pm_fold_lookup:
  "\<forall>e\<in>set rp. distinct (snd e) \<Longrightarrow>
     lookup_list (fold phrase_models_step rp d) k
       = lookup_list d k @ map fst (filter (\<lambda>e. k \<in> set (snd e)) rp)"
proof (induction rp arbitrary: d)
  case Nil
  then show ?case by simp
next
  case (Cons e rp)
  obtain m ps where e: "e = (m, ps)" by (cases e)
  with Cons.prems have d: "distinct ps" by simp
  have "lookup_list (fold phrase_models_step (e # rp) d) k
          = lookup_list (phrase_models_step e d) k @ map fst (filter (\<lambda>e. k \<in> set (snd e)) rp)"
    using Cons.IH [of "phrase_models_step e d"] Cons.prems by simp
  also have "lookup_list (phrase_models_step e d) k = lookup_list d k @ (if k \<in> set ps then [m] else [])"
    by (simp add: phrase_models_step_def e fold_dd_append_lookup [OF d])
  finally show ?case by (simp add: e)
qed

lemma pm_fold_distinct:
  "distinct (map fst d) \<Longrightarrow> distinct (map fst (fold phrase_models_step rp d))"
proof (induction rp arbitrary: d)
  case Nil
  then show ?case by simp
next
  case (Cons e rp)
  obtain m ps where e: "e = (m, ps)" by (cases e)
  have "distinct (map fst (phrase_models_step e d))"
    using fold_dd_append_distinct [OF Cons.prems] by (simp add: phrase_models_step_def e)
  from Cons.IH [OF this] show ?case by simp
qed

lemma phrase_models_entry:
  assumes dk: "distinct (map fst rp)" and dv: "\<forall>e\<in>set rp. distinct (snd e)"
    and mem: "(phrase, ms) \<in> set (phrase_models rp)"
  shows "ms = map fst (filter (\<lambda>e. phrase \<in> set (snd e)) rp)"
    and "distinct ms" and "set ms \<subseteq> fst ` set rp" and "length ms \<le> length rp"
proof -
  have pm: "phrase_models rp = fold phrase_models_step rp []"
    by (simp add: phrase_models_def)
  have "distinct (map fst (phrase_models rp))"
    unfolding pm by (rule pm_fold_distinct) simp
  with mem have "map_of (phrase_models rp) phrase = Some ms" by simp
  then have "ms = lookup_list (fold phrase_models_step rp []) phrase"
    by (simp add: lookup_list_def pm)
  also have "\<dots> = map fst (filter (\<lambda>e. phrase \<in> set (snd e)) rp)"
    using pm_fold_lookup [OF dv, of "[]" phrase] by (simp add: lookup_list_def)
  finally show ms: "ms = map fst (filter (\<lambda>e. phrase \<in> set (snd e)) rp)" .
  show "distinct ms" unfolding ms using dk by (rule distinct_map_filter)
  show "set ms \<subseteq> fst ` set rp" unfolding ms by auto
  have "length ms = length (filter (\<lambda>e. phrase \<in> set (snd e)) rp)" unfolding ms by simp
  also have "\<dots> \<le> length rp" by (rule length_filter_le)
  finally show "length ms \<le> length rp" .
qed

subsection \<open>The dictionary response\_phrases\<close>

lemma update_length: "length (AList.update k v al) \<le> Suc (length al)"
  by (induction al) auto

lemma update_values: "snd ` set (AList.update k v al) \<subseteq> insert v (snd ` set al)"
  by (induction al) auto

lemma fold_update_keys:
  "distinct (map fst d) \<Longrightarrow>
     distinct (map fst (fold (\<lambda>r d. AList.update (f r) (g r) d) rs d))
   \<and> length (fold (\<lambda>r d. AList.update (f r) (g r) d) rs d) \<le> length d + length rs
   \<and> fst ` set (fold (\<lambda>r d. AList.update (f r) (g r) d) rs d) = fst ` set d \<union> f ` set rs
   \<and> snd ` set (fold (\<lambda>r d. AList.update (f r) (g r) d) rs d) \<subseteq> snd ` set d \<union> g ` set rs"
proof (induction rs arbitrary: d)
  case Nil
  then show ?case by simp
next
  case (Cons r rs)
  let ?d = "AList.update (f r) (g r) d"
  have d: "distinct (map fst ?d)" using Cons.prems by (simp add: distinct_update)
  have len: "length ?d \<le> length d + 1" using update_length [of "f r" "g r" d] by simp
  have keys: "fst ` set ?d = insert (f r) (fst ` set d)"
    by (simp add: dom_update)
  have vals: "snd ` set ?d \<subseteq> insert (g r) (snd ` set d)"
    by (rule update_values)
  let ?r = "fold (\<lambda>r d. AList.update (f r) (g r) d) rs ?d"
  from Cons.IH [OF d] have i1: "distinct (map fst ?r)"
    and i2: "length ?r \<le> length ?d + length rs"
    and i3: "fst ` set ?r = fst ` set ?d \<union> f ` set rs"
    and i4: "snd ` set ?r \<subseteq> snd ` set ?d \<union> g ` set rs" by simp_all
  have "length ?r \<le> length d + length (r # rs)" using i2 len by simp
  moreover have "fst ` set ?r = fst ` set d \<union> f ` set (r # rs)" using i3 keys by auto
  moreover have "snd ` set ?r \<subseteq> snd ` set d \<union> g ` set (r # rs)"
  proof
    fix b
    assume "b \<in> snd ` set ?r"
    with i4 have "b \<in> snd ` set ?d \<or> b \<in> g ` set rs" by blast
    with vals show "b \<in> snd ` set d \<union> g ` set (r # rs)" by auto
  qed
  ultimately show ?case using i1 by simp
qed

lemma response_phrases_props:
  assumes "set_iteration so"
  shows "distinct (map fst (response_phrases so self))"
    and "\<forall>e\<in>set (response_phrases so self). distinct (snd e)"
    and "length (response_phrases so self) \<le> length (responses self)"
    and "fst ` set (response_phrases so self) = model ` set (responses self)"
    and "\<forall>e\<in>set (response_phrases so self). \<forall>p\<in>set (snd e). py_split (py_lower p) \<noteq> []"
proof -
  let ?g = "\<lambda>r. extract_key_phrases so (text_of r)"
  have f: "distinct (map fst (response_phrases so self))
     \<and> length (response_phrases so self) \<le> length ([]::(string \<times> string list) list) + length (responses self)
     \<and> fst ` set (response_phrases so self) = fst ` set ([]::(string \<times> string list) list) \<union> model ` set (responses self)
     \<and> snd ` set (response_phrases so self) \<subseteq> snd ` set ([]::(string \<times> string list) list) \<union> ?g ` set (responses self)"
    unfolding response_phrases_def by (rule fold_update_keys) simp
  then show "distinct (map fst (response_phrases so self))"
    and "length (response_phrases so self) \<le> length (responses self)"
    and "fst ` set (response_phrases so self) = model ` set (responses self)" by simp_all
  from f have v: "snd ` set (response_phrases so self) \<subseteq> ?g ` set (responses self)" by simp
  show "\<forall>e\<in>set (response_phrases so self). distinct (snd e)"
    using v extract_key_phrases_distinct [OF assms] by force
  show "\<forall>e\<in>set (response_phrases so self). \<forall>p\<in>set (snd e). py_split (py_lower p) \<noteq> []"
  proof (intro ballI)
    fix e p
    assume "e \<in> set (response_phrases so self)" and p: "p \<in> set (snd e)"
    with v obtain r where "snd e = ?g r" by force
    with p show "py_split (py_lower p) \<noteq> []"
      using extract_key_phrases_words [OF assms] by simp
  qed
qed

subsection \<open>The loop that builds the themes\<close>

lemma theme_loop_total:
  "\<forall>e\<in>set pm. 2 \<le> length (snd e) \<longrightarrow> py_split (py_lower (fst e)) \<noteq> [] \<Longrightarrow>
     \<exists>out. theme_loop self pm ts = Inr out"
proof (induction pm arbitrary: ts)
  case Nil
  then show ?case by simp
next
  case (Cons e pm)
  obtain phrase ms where e: "e = (phrase, ms)" by (cases e)
  show ?case
  proof (cases "2 \<le> length ms")
    case False
    then show ?thesis using Cons by (simp add: e)
  next
    case True
    with Cons.prems have "py_split (py_lower phrase) \<noteq> []" by (simp add: e)
    from find_evidence_total [OF this] obtain ev where
      "find_evidence self phrase ms = Inr ev" by blast
    then show ?thesis using True Cons by (simp add: e)
  qed
qed

lemma theme_loop_small:
  "\<forall>e\<in>set pm. length (snd e) < 2 \<Longrightarrow> theme_loop self pm ts = Inr ts"
  by (induction pm arbitrary: ts) auto

lemma theme_loop_members:
  "theme_loop self pm ts = Inr out \<Longrightarrow> t \<in> set out \<Longrightarrow>
     t \<in> set ts \<or>
     (\<exists>e\<in>set pm. 2 \<le> length (snd e) \<and> theme t = fst e \<and> supporting_models t = snd e
        \<and> confidence t = real (length (snd e)) / real (length (responses self)))"
proof (induction pm arbitrary: ts)
  case Nil
  then show ?case by simp
next
  case (Cons e pm)
  obtain phrase ms where e: "e = (phrase, ms)" by (cases e)
  show ?case
  proof (cases "2 \<le> length ms")
    case False
    with Cons.prems have "theme_loop self pm ts = Inr out" by (simp add: e)
    from Cons.IH [OF this Cons.prems(2)] show ?thesis by auto
  next
    case True
    with Cons.prems(1) obtain ev where
      run: "theme_loop self pm
              (ts @ [\<lparr>theme = phrase, supporting_models = ms,
                       confidence = real (length ms) / real (length (responses self)),
                       evidence = take 3 ev\<rparr>]) = Inr out"
      by (auto simp: e split: sum.splits)
    from Cons.IH [OF run Cons.prems(2)] True show ?thesis by (auto simp: e)
  qed
qed

lemma phrase_models_long_entry:
  assumes so: "set_iteration so"
    and mem: "e \<in> set (phrase_models (response_phrases so self))"
  shows "distinct (snd e)"
    and "set (snd e) \<subseteq> model ` set (responses self)"
    and "length (snd e) \<le> length (responses self)"
    and "snd e \<noteq> [] \<Longrightarrow> py_split (py_lower (fst e)) \<noteq> []"
proof -
  let ?rp = "response_phrases so self"
  obtain phrase ms where e: "e = (phrase, ms)" by (cases e)
  note rp = response_phrases_props [OF so, of self]
  from mem have m: "(phrase, ms) \<in> set (phrase_models ?rp)" by (simp add: e)
  note pe = phrase_models_entry [OF rp(1) rp(2) m]
  show "distinct (snd e)" using pe(2) by (simp add: e)
  show "set (snd e) \<subseteq> model ` set (responses self)" using pe(3) rp(4) by (simp add: e)
  show "length (snd e) \<le> length (responses self)" using pe(4) rp(3) by (simp add: e)
  show "py_split (py_lower (fst e)) \<noteq> []" if "snd e \<noteq> []"
  proof -
    from that pe(1) have "filter (\<lambda>x. phrase \<in> set (snd x)) ?rp \<noteq> []" by (auto simp: e)
    then obtain x where "x \<in> set ?rp" "phrase \<in> set (snd x)"
      by (metis (mono_tags, lifting) filter_False)
    with rp(5) show ?thesis by (auto simp: e)
  qed
qed

lemma extract_themes_total:
  assumes "set_iteration so"
  shows "\<exists>ts. extract_themes so self = Inr ts"
proof -
  have "\<forall>e\<in>set (phrase_models (response_phrases so self)).
          2 \<le> length (snd e) \<longrightarrow> py_split (py_lower (fst e)) \<noteq> []"
    using phrase_models_long_entry(4) [OF assms] by fastforce
  from theme_loop_total [OF this, of self "[]"] show ?thesis
    by (auto simp: extract_themes_def)
qed

lemma extract_themes_few:
  assumes "set_iteration so" and "length (responses self) \<le> 1"
  shows "extract_themes so self = Inr []"
proof -
  have "\<forall>e\<in>set (phrase_models (response_phrases so self)). length (snd e) < 2"
    using phrase_models_long_entry(3) [OF assms(1)] assms(2) by fastforce
  then have "theme_loop self (phrase_models (response_phrases so self)) [] = Inr []"
    by (rule theme_loop_small)
  then show ?thesis by (simp add: extract_themes_def)
qed

lemma extract_themes_members:
  assumes so: "set_iteration so" and run: "extract_themes so self = Inr ts" and t: "t \<in> set ts"
  shows "2 \<le> length (supporting_models t) \<and> distinct (supporting_models t)
    \<and> set (supporting_models t) \<subseteq> model ` set (responses self)
    \<and> confidence t = real (length (supporting_models t)) / real (length (responses self))"
proof (cases "responses self = []")
  case True
  with run t show ?thesis by (simp add: extract_themes_def)
next
  case False
  let ?pm = "phrase_models (response_phrases so self)"
  from run False obtain out where
    out: "theme_loop self ?pm [] = Inr out"
    and ts: "ts = take 10 (sort_key (\<lambda>t. - confidence t) out)"
    by (auto simp: extract_themes_def split: sum.splits)
  from t have "t \<in> set out" unfolding ts by (auto dest: in_set_takeD)
  from theme_loop_members [OF out this] obtain e where
    e: "e \<in> set ?pm" "2 \<le> length (snd e)" "supporting_models t = snd e"
       "confidence t = real (length (snd e)) / real (length (responses self))"
    by auto
  from phrase_models_long_entry(1,2) [OF so e(1)] e(2,3,4) show ?thesis by simp
qed

lemma extract_themes_sorted:
  assumes "extract_themes so self = Inr ts"
  shows "sorted_wrt (\<lambda>a b. confidence b \<le> confidence a) ts \<and> length ts \<le> 10"
proof (cases "responses self = []")
  case True
  with assms show ?thesis by (simp add: extract_themes_def)
next
  case False
  with assms obtain out where ts: "ts = take 10 (sort_key (\<lambda>t. - confidence t) out)"
    by (auto simp: extract_themes_def split: sum.splits)
  have "sorted (map (\<lambda>t. - confidence t) (sort_key (\<lambda>t. - confidence t) out))"
    by (rule sorted_sort_key)
  then have "sorted_wrt (\<lambda>a b. confidence b \<le> confidence a) (sort_key (\<lambda>t. - confidence t) out)"
    by (simp add: sorted_map)
  then show ?thesis unfolding ts by (simp add: sorted_wrt_take)
qed

lemma set_iteration_remdups: "set_iteration remdups"
  by (simp add: set_iteration_def)

lemma wal_themes: "extract_themes remdups (add_responses init_engine wal_results) = Inr [wal_theme]"
  by code_simp

lemma wal_consensus: "calculate_consensus remdups (add_responses init_engine wal_results) = Inr (11 / 30)"
  by code_simp

lemma lone_actions:
  "extract_actions remdups (add_responses init_engine lone_result)
     = [\<lparr>action = ''You should start with a write-ahead log.'', priority = ''medium'',
         source_models = [''a''], item_domain = ''technical'',
         rationale = ''Recommended by 1 model(s)''\<rparr>]"
  by code_simp

text \<open>
  Claim C6: \<^verbatim>\<open>extract_themes\<close> returns at most 10 themes, sorted by descending confidence;
  every theme has at least 2 supporting models, all distinct and all among the stored
  (successful) results, and its confidence is the number of its supporting models divided
  by the number of stored results. The call never raises.
\<close>

theorem extract_themes_support:
  assumes "set_iteration so"
  shows "\<exists>ts. extract_themes so (add_responses self rs) = Inr ts
           \<and> length ts \<le> 10
           \<and> sorted_wrt (\<lambda>a b. confidence b \<le> confidence a) ts
           \<and> (\<forall>t\<in>set ts. 2 \<le> length (supporting_models t)
                  \<and> distinct (supporting_models t)
                  \<and> set (supporting_models t) \<subseteq> model ` set (responses (add_responses self rs))
                  \<and> confidence t = real (length (supporting_models t))
                                     / real (length (responses (add_responses self rs))))"
proof -
  from extract_themes_total [OF assms] obtain ts where
    ts: "extract_themes so (add_responses self rs) = Inr ts" by blast
  from extract_themes_sorted [OF ts] extract_themes_members [OF assms ts] ts
  show ?thesis by blast
qed

theorem extract_themes_support_witness:
  "set_iteration remdups
   \<and> extract_themes remdups (add_responses init_engine wal_results) = Inr [wal_theme]
   \<and> 2 \<le> length (supporting_models wal_theme)
   \<and> distinct (supporting_models wal_theme)
   \<and> confidence wal_theme = real (length (supporting_models wal_theme))
        / real (length (responses (add_responses init_engine wal_results)))"
proof -
  from extract_themes_support [OF set_iteration_remdups, of init_engine wal_results]
  obtain ts where ts: "extract_themes remdups (add_responses init_engine wal_results) = Inr ts"
    and p: "\<forall>t\<in>set ts. 2 \<le> length (supporting_models t)
                  \<and> distinct (supporting_models t)
                  \<and> set (supporting_models t)
                        \<subseteq> model ` set (responses (add_responses init_engine wal_results))
                  \<and> confidence t = real (length (supporting_models t))
                       / real (length (responses (add_responses init_engine wal_results)))"
    by blast
  from ts wal_themes have "ts = [wal_theme]" by simp
  with p wal_themes set_iteration_remdups show ?thesis by simp
qed

text \<open>
  Claim C5: \<^verbatim>\<open>calculate_consensus\<close> returns a value between 0 and 1; the value is 1 when
  fewer than 2 results are stored, and otherwise it is the average confidence of the
  themes (their sum divided by the larger of 1 and their number) less 0.1 for each
  conflict, clamped to the interval from 0 to 1.
\<close>

theorem calculate_consensus_bounds:
  assumes "set_iteration so"
  shows "\<exists>c. calculate_consensus so (add_responses self rs) = Inr c \<and> 0 \<le> c \<and> c \<le> 1
     \<and> (length (responses (add_responses self rs)) < 2 \<longrightarrow> c = 1)
     \<and> (2 \<le> length (responses (add_responses self rs)) \<longrightarrow>
          (\<exists>ts. extract_themes so (add_responses self rs) = Inr ts
             \<and> c = max 0 (min 1 (sum_list (map confidence ts) / real (max 1 (length ts))
                 - 0.1 * real (length (detect_conflicts (add_responses self rs)))))))"
proof -
  let ?e = "add_responses self rs"
  from extract_themes_total [OF assms] obtain ts where
    ts: "extract_themes so ?e = Inr ts" by blast
  show ?thesis
  proof (cases "length (responses ?e) < 2")
    case True
    then have "calculate_consensus so ?e = Inr 1" by (simp add: calculate_consensus_def)
    with True show ?thesis by simp
  next
    case False
    let ?c = "max 0 (min 1 (sum_list (map confidence ts) / real (max 1 (length ts))
                 - 0.1 * real (length (detect_conflicts ?e))))"
    have "calculate_consensus so ?e = Inr ?c"
      using False ts by (simp add: calculate_consensus_def Let_def max.commute mult.commute)
    moreover have "0 \<le> ?c" "?c \<le> 1" by simp_all
    ultimately show ?thesis using False ts by auto
  qed
qed

theorem calculate_consensus_bounds_witness:
  "set_iteration remdups
   \<and> 2 \<le> length (responses (add_responses init_engine wal_results))
   \<and> calculate_consensus remdups (add_responses init_engine wal_results) = Inr (11 / 30)
   \<and> (\<exists>ts. extract_themes remdups (add_responses init_engine wal_results) = Inr ts
         \<and> (11 / 30 :: real) = max 0 (min 1 (sum_list (map confidence ts) / real (max 1 (length ts))
               - 0.1 * real (length (detect_conflicts (add_responses init_engine wal_results))))))
   \<and> length (responses (add_responses init_engine mixed_results)) < 2
   \<and> calculate_consensus remdups (add_responses init_engine mixed_results) = Inr 1"
proof -
  have two: "2 \<le> length (responses (add_responses init_engine wal_results))"
    by (simp add: wal_results_def mk_success_def add_responses_def truthy_def)
  have one: "length (responses (add_responses init_engine mixed_results)) < 2"
    by (simp add: mixed_results_def mk_response_def add_responses_def truthy_def)
  from calculate_consensus_bounds [OF set_iteration_remdups, of init_engine wal_results] two
    wal_consensus
  have a: "\<exists>ts. extract_themes remdups (add_responses init_engine wal_results) = Inr ts
         \<and> (11 / 30 :: real) = max 0 (min 1 (sum_list (map confidence ts) / real (max 1 (length ts))
               - 0.1 * real (length (detect_conflicts (add_responses init_engine wal_results)))))"
    by auto
  from calculate_consensus_bounds [OF set_iteration_remdups, of init_engine mixed_results] one
  have b: "calculate_consensus remdups (add_responses init_engine mixed_results) = Inr 1"
    by auto
  from a b two one wal_consensus set_iteration_remdups show ?thesis by blast
qed

lemma calculate_consensus_total:
  assumes "set_iteration so"
  shows "\<exists>c. calculate_consensus so self = Inr c"
proof -
  from extract_themes_total [OF assms] obtain ts where "extract_themes so self = Inr ts"
    by blast
  then show ?thesis by (simp add: calculate_consensus_def Let_def)
qed

lemma synthesize_total:
  assumes "set_iteration so"
  shows "\<exists>res. synthesize so now self q = Inr res"
proof -
  from extract_themes_total [OF assms] obtain ts where "extract_themes so self = Inr ts"
    by blast
  moreover from calculate_consensus_total [OF assms] obtain c where
    "calculate_consensus so self = Inr c" by blast
  ultimately show ?thesis by (simp add: synthesize_def Let_def)
qed

lemma extract_actions_none: "responses self = [] \<Longrightarrow> extract_actions so self = []"
  by (simp add: extract_actions_def dedupe_actions_def)

text \<open>
  Claim C3, as the code has it: with 0 or 1 stored (successful) results no pass raises,
  \<^verbatim>\<open>extract_themes\<close> and \<^verbatim>\<open>detect_conflicts\<close> return the empty list, \<^verbatim>\<open>calculate_consensus\<close>
  returns 1 and \<^verbatim>\<open>synthesize\<close> returns a report; \<^verbatim>\<open>extract_actions\<close> returns the empty list
  when nothing is stored (with one stored result it can be non-empty, see below).
\<close>

theorem few_responses_neutral:
  assumes "set_iteration so" and "length (responses (add_responses self rs)) \<le> 1"
  shows "extract_themes so (add_responses self rs) = Inr []
     \<and> detect_conflicts (add_responses self rs) = []
     \<and> calculate_consensus so (add_responses self rs) = Inr 1
     \<and> (\<exists>res. synthesize so now (add_responses self rs) q = Inr res)
     \<and> (responses (add_responses self rs) = [] \<longrightarrow> extract_actions so (add_responses self rs) = [])"
proof -
  have "extract_themes so (add_responses self rs) = Inr []"
    using assms by (rule extract_themes_few)
  moreover have "detect_conflicts (add_responses self rs) = []"
    using assms(2) by (simp add: detect_conflicts_def)
  moreover have "calculate_consensus so (add_responses self rs) = Inr 1"
    using assms(2) by (simp add: calculate_consensus_def)
  moreover have "\<exists>res. synthesize so now (add_responses self rs) q = Inr res"
    using assms(1) by (rule synthesize_total)
  ultimately show ?thesis using extract_actions_none by blast
qed

theorem few_responses_neutral_witness:
  "set_iteration remdups
   \<and> length (responses (add_responses init_engine lone_result)) \<le> 1
   \<and> extract_themes remdups (add_responses init_engine lone_result) = Inr []
   \<and> detect_conflicts (add_responses init_engine lone_result) = []
   \<and> calculate_consensus remdups (add_responses init_engine lone_result) = Inr 1
   \<and> (\<exists>res. synthesize remdups ''now'' (add_responses init_engine lone_result) ''q'' = Inr res)
   \<and> responses (add_responses init_engine []) = []
   \<and> extract_actions remdups (add_responses init_engine []) = []"
proof -
  have one: "length (responses (add_responses init_engine lone_result)) \<le> 1"
    by (simp add: lone_result_def add_responses_def)
  have none: "responses (add_responses init_engine []) = []"
    by (simp add: add_responses_def)
  then have none': "length (responses (add_responses init_engine [])) \<le> 1" by simp
  from few_responses_neutral [OF set_iteration_remdups one, of "''now''" "''q''"]
    few_responses_neutral [OF set_iteration_remdups none', of "''now''" "''q''"]
    one none set_iteration_remdups
  show ?thesis by blast
qed

text \<open>
  Claim C3 as stated fails for \<^verbatim>\<open>extract_actions\<close>: it has no guard on the number of
  responses, and with a single successful response it returns the recommendations of that
  response.
\<close>

theorem single_response_actions_counterexample:
  "length (responses (add_responses init_engine lone_result)) \<le> 1
   \<and> extract_actions remdups (add_responses init_engine lone_result) \<noteq> []"
proof -
  have "length (responses (add_responses init_engine lone_result)) \<le> 1"
    by (simp add: lone_result_def add_responses_def)
  then show ?thesis by (simp add: lone_actions)
qed

subsection \<open>Conflicts\<close>













section \<open>Properties of the admission gate\<close>

lemma in_flight_update:
  "i < length ts \<Longrightarrow>
     length (filter (\<lambda>t. t = InFlight) (ts[i := x]))
       = length (filter (\<lambda>t. t = InFlight) ts)
         + (if x = InFlight then 1 else 0) - (if ts ! i = InFlight then 1 else 0)"
proof (induction ts arbitrary: i)
  case Nil
  then show ?case by simp
next
  case (Cons t ts)
  show ?case
  proof (cases i)
    case 0
    then show ?thesis by simp
  next
    case (Suc j)
    with Cons.prems have j: "j < length ts" by simp
    have "ts ! j = InFlight \<Longrightarrow> 0 < length (filter (\<lambda>t. t = InFlight) ts)"
      using j by (auto simp: filter_empty_conv in_set_conv_nth)
    then show ?thesis using Cons.IH [OF j] Suc by auto
  qed
qed

lemma apply_event_invariant:
  "apply_event s e = Some s' \<Longrightarrow> in_flight s + sem_value s = k \<Longrightarrow>
     in_flight s' + sem_value s' = k"
proof (cases e)
  case (Acquire i)
  assume "apply_event s e = Some s'" and inv: "in_flight s + sem_value s = k"
  with Acquire have i: "i < length (tasks s)" "tasks s ! i = Pending" "0 < sem_value s"
    and s': "s' = s\<lparr>sem_value := sem_value s - 1, tasks := (tasks s)[i := InFlight]\<rparr>"
    by (auto split: if_splits)
  have "in_flight s' = in_flight s + 1"
    using in_flight_update [OF i(1), of InFlight] i(2) by (simp add: in_flight_def s')
  then show ?thesis using inv i(3) by (simp add: s')
next
  case (Release i)
  assume "apply_event s e = Some s'" and inv: "in_flight s + sem_value s = k"
  with Release have i: "i < length (tasks s)" "tasks s ! i = InFlight"
    and s': "s' = s\<lparr>sem_value := sem_value s + 1, tasks := (tasks s)[i := Finished]\<rparr>"
    by (auto split: if_splits)
  have "0 < in_flight s"
    using i by (auto simp: in_flight_def filter_empty_conv in_set_conv_nth)
  moreover have "in_flight s' = in_flight s - 1"
    using in_flight_update [OF i(1), of Finished] i(2) by (simp add: in_flight_def s')
  ultimately show ?thesis using inv by (simp add: s')
qed

lemma run_invariant:
  "run s es = Some s' \<Longrightarrow> in_flight s + sem_value s = k \<Longrightarrow> in_flight s' + sem_value s' = k"
proof (induction es arbitrary: s)
  case Nil
  then show ?case by simp
next
  case (Cons e es)
  from Cons.prems(1) obtain s1 where
    s1: "apply_event s e = Some s1" and r: "run s1 es = Some s'"
    by (auto split: option.splits)
  from apply_event_invariant [OF s1 Cons.prems(2)] have "in_flight s1 + sem_value s1 = k" .
  with r show ?case by (rule Cons.IH)
qed

lemma start_invariant: "in_flight (start k n) + sem_value (start k n) = k"
  by (simp add: start_def in_flight_def)

text \<open>
  Claim C9: in every state that a schedule reaches from the start with
  \<^verbatim>\<open>max_concurrent = k\<close>, at most \<open>k\<close> calls are in flight; when \<open>k\<close> calls are in flight no
  pending call can be admitted, and when fewer are in flight any pending call can.
\<close>

theorem in_flight_bounded:
  "run (start k n) es = Some s \<Longrightarrow>
     in_flight s \<le> k
   \<and> (in_flight s = k \<longrightarrow> apply_event s (Acquire i) = None)
   \<and> (in_flight s < k \<and> i < length (tasks s) \<and> tasks s ! i = Pending
        \<longrightarrow> apply_event s (Acquire i) \<noteq> None)"
proof -
  assume "run (start k n) es = Some s"
  from run_invariant [OF this start_invariant] have inv: "in_flight s + sem_value s = k" .
  then show ?thesis by auto
qed

theorem in_flight_bounded_witness:
  "run (start 2 3) [Acquire 0, Acquire 1]
     = Some \<lparr>sem_value = 0, tasks = [InFlight, InFlight, Pending]\<rparr>
   \<and> in_flight \<lparr>sem_value = 0, tasks = [InFlight, InFlight, Pending]\<rparr> = 2
   \<and> apply_event \<lparr>sem_value = 0, tasks = [InFlight, InFlight, Pending]\<rparr> (Acquire 2) = None
   \<and> run (start 2 3) [Acquire 0, Acquire 1, Release 0]
     = Some \<lparr>sem_value = 1, tasks = [Finished, InFlight, Pending]\<rparr>
   \<and> in_flight \<lparr>sem_value = 1, tasks = [Finished, InFlight, Pending]\<rparr> < 2
   \<and> apply_event \<lparr>sem_value = 1, tasks = [Finished, InFlight, Pending]\<rparr> (Acquire 2) \<noteq> None"
proof -
  let ?s = "\<lparr>sem_value = 0, tasks = [InFlight, InFlight, Pending]\<rparr>"
  let ?t = "\<lparr>sem_value = 1, tasks = [Finished, InFlight, Pending]\<rparr>"
  have r1: "run (start 2 3) [Acquire 0, Acquire 1] = Some ?s"
    by (simp add: start_def numeral_3_eq_3)
  have r2: "run (start 2 3) [Acquire 0, Acquire 1, Release 0] = Some ?t"
    by (simp add: start_def numeral_3_eq_3)
  have f1: "in_flight ?s = 2" by (simp add: in_flight_def)
  have f2: "in_flight ?t < 2" by (simp add: in_flight_def)
  from in_flight_bounded [OF r1, of 2] f1 have a: "apply_event ?s (Acquire 2) = None" by blast
  have "2 < length (tasks ?t) \<and> tasks ?t ! 2 = Pending" by simp
  with in_flight_bounded [OF r2, of 2] f2 have b: "apply_event ?t (Acquire 2) \<noteq> None" by blast
  from r1 r2 f1 f2 a b show ?thesis by blast
qed

end
